theory Spec2Isabelle
  imports Complex_Main "HOL-Library.Word" "HOL-Library.Sublist"
begin

section \<open>Wide strings of the virtual machine (src/src/vm.c)\<close>

text \<open>
  The interpreter stores text as \<open>wchar_t\<close> buffers ending in a NUL cell. A buffer is
  modelled as the list of its initialised cells, terminator included; a pointer into a
  buffer is modelled as the list of cells from that pointer on. Reading a cell past the
  last one of the list is a read outside the buffer: the model gives \<open>None\<close> there.
\<close>

type_synonym wchar = "32 word"

text \<open>
  The C string a pointer denotes: the cells before the first NUL. Without a NUL among the
  cells the functions of the C library read past the buffer: \<open>None\<close>.
\<close>

definition wcs :: "wchar list \<Rightarrow> wchar list option" where
  "wcs cells = (if 0 \<in> set cells then Some (takeWhile (\<lambda>c. c \<noteq> 0) cells) else None)"

definition wcslen :: "wchar list \<Rightarrow> int option" where
  "wcslen cells = map_option (\<lambda>s. int (length s)) (wcs cells)"

text \<open>
  \<open>wcsstr(haystack, needle)\<close> of the C library, on the two C strings: the offset of the
  first occurrence of the needle, \<open>None\<close> for the NULL result. An empty needle is found at
  offset 0.
\<close>

fun wcsstr :: "wchar list \<Rightarrow> wchar list \<Rightarrow> nat option" where
  "wcsstr [] nd = (if nd = [] then Some 0 else None)"
| "wcsstr (c # h) nd =
     (if prefix nd (c # h) then Some 0 else map_option Suc (wcsstr h nd))"

text \<open>
  \<open>ObjString\<close>: the length field and the character buffer (the hash is not modelled).
  The field is called \<open>length\<close> in the source.
\<close>

record ObjString =
  length_s :: int
  chars :: "wchar list"

text \<open>
  Modelled from the spec: \<open>copyString(chars, length)\<close> and \<open>takeString(chars, length)\<close>
  live in object.c, which is not part of the sources at hand. Both build the string
  object whose length field is the \<open>length\<close> argument and whose buffer holds the first
  \<open>length\<close> cells of the argument followed by the terminator; \<open>copyString\<close> copies
  them into a fresh buffer and writes the terminator itself, \<open>takeString\<close> adopts the
  caller's buffer (cells \<open>0 .. length\<close> of it, when it has that many). A NULL source
  with a positive length has no cell to copy: \<open>None\<close>.
\<close>

definition copyString :: "wchar list option \<Rightarrow> int \<Rightarrow> ObjString option" where
  "copyString src n =
     (case src of
        None \<Rightarrow> None
      | Some cells \<Rightarrow>
          if n < 0 \<or> int (length cells) < n then None
          else Some \<lparr>length_s = n, chars = take (nat n) cells @ [0]\<rparr>)"

definition takeString :: "wchar list \<Rightarrow> int \<Rightarrow> ObjString option" where
  "takeString buf n =
     (if n < 0 then None else Some \<lparr>length_s = n, chars = take (nat n + 1) buf\<rparr>)"

section \<open>Values, heap objects and the machine state\<close>

text \<open>
  A value is nil, a boolean, a number or a pointer to a heap object. Numbers are C
  doubles; the model takes them as reals (no rounding, no infinities, no NaN). Heap
  objects live in a store from addresses to objects; the object's constructor is the
  type tag of its header. A table is keyed by the identity of interned string objects,
  so it is a map from string addresses to values.
\<close>

type_synonym addr = nat

datatype Value = NIL_VAL | BOOL_VAL bool | NUMBER_VAL real | OBJ_VAL addr

type_synonym Table = "addr \<rightharpoonup> Value"

record Chunk =
  code :: "8 word list"
  constants :: "Value list"

record ObjFunction =
  arity :: int
  upvalueCount :: int
  chunk :: Chunk

text \<open>The upvalue array of a closure; \<open>None\<close> is the NULL pointer of a slot not yet filled.\<close>

record ObjClosure =
  "function" :: addr
  upvalues :: "addr option list"

text \<open>
  The \<open>location\<close> of an upvalue points either at a stack slot (\<open>&vm.stack[i]\<close>) or at the
  upvalue's own \<open>closed\<close> field. The \<open>next\<close> pointers of the open upvalues are
  represented by the list \<open>openUpvalues\<close> of the machine: the objects in the order in
  which the chain from \<open>vm.openUpvalues\<close> visits them.
\<close>

datatype Location = Slot int | Own_closed

record ObjUpvalue =
  location :: Location
  closed :: Value

record ObjClass =
  name :: addr
  methods :: Table

record ObjInstance =
  klass :: addr
  fields_t :: Table
  isStatic :: bool

record ObjBoundMethod =
  receiver :: Value
  "method" :: addr

datatype Obj =
    OBJ_BOUND_METHOD ObjBoundMethod
  | OBJ_CLASS ObjClass
  | OBJ_CLOSURE ObjClosure
  | OBJ_FUNCTION ObjFunction
  | OBJ_INSTANCE ObjInstance
  | OBJ_LIST "Value list"
  | OBJ_NATIVE int
  | OBJ_STRING ObjString
  | OBJ_UPVALUE ObjUpvalue

record CallFrame =
  closure :: addr
  ip :: int
  slots :: int
  callClosure :: bool

text \<open>
  What \<open>runtimeError\<close> prints first: the formatted message. Each constructor is one
  format string of vm.c with its arguments. The stack trace printed after the message is
  not modelled.
\<close>

datatype ArgKind = Kind_string | Kind_number

datatype Message =
    Expected_arguments int int
  | Expected_0_to_1_arguments int
  | Stack_overflow
  | Only_functions_and_classes_callable
  | Undefined_property addr
  | Argument_type nat ArgKind Value
  | Argument_not_valid_index nat
  | End_before_begin
  | Pop_from_empty_list
  | Only_instances_have_properties
  | Only_instances_strings_lists_have_methods
  | Superclass_must_be_class

text \<open>
  The global \<open>vm\<close>. The value stack and the frame array are C arrays addressed through
  \<open>stackTop\<close> and \<open>frameCount\<close>; cells at and above the top keep their last contents, so
  both are maps from indices to cells. The source never checks an index against
  \<open>STACK_MAX\<close>, and the model has no upper end of the value stack either. \<open>nextObj\<close> is
  the address the allocator hands out next (memory.c, with the collector, is not part of
  the sources at hand). \<open>strings\<close> is the intern table, keyed by length and text.
\<close>

record VM =
  stack :: "int \<Rightarrow> Value"
  stackTop :: int
  frames :: "int \<Rightarrow> CallFrame"
  frameCount :: int
  openUpvalues :: "addr list"
  heap :: "addr \<rightharpoonup> Obj"
  nextObj :: addr
  strings :: "(int \<times> wchar list) \<rightharpoonup> addr"
  initString :: addr
  stderr :: "Message list"

text \<open>
  The result of a modelled C function: \<open>Done\<close> with what it returns and the state it
  leaves, \<open>Undefined\<close> where C gives no meaning to the execution (a cast to the wrong
  object type, a read outside a buffer), \<open>Unmodelled\<close> where the execution enters code
  that this theory does not translate, \<open>OutOfFuel\<close> where the dispatch loop was cut off.
\<close>

datatype 'a outcome = Done 'a | Undefined | Unmodelled | OutOfFuel

text \<open>Modelled from the spec: \<open>FRAMES_MAX\<close> is defined in vm.h; the spec gives 64.\<close>

definition FRAMES_MAX :: int where
  "FRAMES_MAX = 64"

definition resetStack :: "VM \<Rightarrow> VM" where
  "resetStack vm = vm\<lparr>stackTop := 0, frameCount := 0, openUpvalues := []\<rparr>"

definition runtimeError :: "Message \<Rightarrow> VM \<Rightarrow> VM" where
  "runtimeError msg vm = resetStack (vm\<lparr>stderr := stderr vm @ [msg]\<rparr>)"

definition push :: "Value \<Rightarrow> VM \<Rightarrow> VM" where
  "push v vm = vm\<lparr>stack := (stack vm)(stackTop vm := v), stackTop := stackTop vm + 1\<rparr>"

definition pop :: "VM \<Rightarrow> Value \<times> VM" where
  "pop vm = (stack vm (stackTop vm - 1), vm\<lparr>stackTop := stackTop vm - 1\<rparr>)"

definition peek :: "VM \<Rightarrow> int \<Rightarrow> Value" where
  "peek vm distance = stack vm (stackTop vm - 1 - distance)"

text \<open>
  The \<open>IS_\<close> and \<open>AS_\<close> macros read the type tag of the object a value points to.
  An \<open>AS_\<close> cast of a value of another type has no meaning in C: \<open>None\<close>.
\<close>

definition deref :: "VM \<Rightarrow> Value \<Rightarrow> Obj option" where
  "deref vm v = (case v of OBJ_VAL a \<Rightarrow> heap vm a | _ \<Rightarrow> None)"

definition AS_STRING :: "VM \<Rightarrow> Value \<Rightarrow> ObjString option" where
  "AS_STRING vm v = (case deref vm v of Some (OBJ_STRING s) \<Rightarrow> Some s | _ \<Rightarrow> None)"

definition AS_LIST :: "VM \<Rightarrow> Value \<Rightarrow> Value list option" where
  "AS_LIST vm v = (case deref vm v of Some (OBJ_LIST xs) \<Rightarrow> Some xs | _ \<Rightarrow> None)"

definition AS_CLASS :: "VM \<Rightarrow> Value \<Rightarrow> ObjClass option" where
  "AS_CLASS vm v = (case deref vm v of Some (OBJ_CLASS k) \<Rightarrow> Some k | _ \<Rightarrow> None)"

definition AS_INSTANCE :: "VM \<Rightarrow> Value \<Rightarrow> ObjInstance option" where
  "AS_INSTANCE vm v = (case deref vm v of Some (OBJ_INSTANCE i) \<Rightarrow> Some i | _ \<Rightarrow> None)"

definition AS_CLOSURE :: "VM \<Rightarrow> Value \<Rightarrow> ObjClosure option" where
  "AS_CLOSURE vm v = (case deref vm v of Some (OBJ_CLOSURE c) \<Rightarrow> Some c | _ \<Rightarrow> None)"

definition AS_FUNCTION :: "VM \<Rightarrow> Value \<Rightarrow> ObjFunction option" where
  "AS_FUNCTION vm v = (case deref vm v of Some (OBJ_FUNCTION f) \<Rightarrow> Some f | _ \<Rightarrow> None)"

definition AS_NATIVE :: "VM \<Rightarrow> Value \<Rightarrow> int option" where
  "AS_NATIVE vm v = (case deref vm v of Some (OBJ_NATIVE n) \<Rightarrow> Some n | _ \<Rightarrow> None)"

definition IS_NUMBER :: "Value \<Rightarrow> bool" where
  "IS_NUMBER v = (case v of NUMBER_VAL d \<Rightarrow> True | _ \<Rightarrow> False)"

definition IS_STRING :: "VM \<Rightarrow> Value \<Rightarrow> bool" where
  "IS_STRING vm v = (AS_STRING vm v \<noteq> None)"

definition IS_LIST :: "VM \<Rightarrow> Value \<Rightarrow> bool" where
  "IS_LIST vm v = (AS_LIST vm v \<noteq> None)"

definition IS_CLASS :: "VM \<Rightarrow> Value \<Rightarrow> bool" where
  "IS_CLASS vm v = (AS_CLASS vm v \<noteq> None)"

definition IS_INSTANCE :: "VM \<Rightarrow> Value \<Rightarrow> bool" where
  "IS_INSTANCE vm v = (AS_INSTANCE vm v \<noteq> None)"

definition IS_NATIVE :: "VM \<Rightarrow> Value \<Rightarrow> bool" where
  "IS_NATIVE vm v = (AS_NATIVE vm v \<noteq> None)"

text \<open>
  The conversion \<open>(int)d\<close> of a double: truncation towards zero, without meaning in C when
  the result does not fit a 32-bit int.
\<close>

definition double_to_int :: "real \<Rightarrow> int option" where
  "double_to_int d =
     (let t = (if 0 \<le> d then \<lfloor>d\<rfloor> else \<lceil>d\<rceil>)
      in if - (2 ^ 31) \<le> t \<and> t < 2 ^ 31 then Some t else None)"

definition AS_INT :: "Value \<Rightarrow> int option" where
  "AS_INT v = (case v of NUMBER_VAL d \<Rightarrow> double_to_int d | _ \<Rightarrow> None)"

text \<open>
  Allocation of a heap object: the object is stored at the next address. Modelled from
  the spec: strings are interned, so building a string returns the existing object with
  the same length and text when the intern table has one.
\<close>

definition allocate :: "Obj \<Rightarrow> VM \<Rightarrow> addr \<times> VM" where
  "allocate obj vm =
     (nextObj vm, vm\<lparr>heap := (heap vm)(nextObj vm \<mapsto> obj), nextObj := nextObj vm + 1\<rparr>)"

definition intern :: "ObjString \<Rightarrow> VM \<Rightarrow> addr \<times> VM" where
  "intern s vm =
     (let key = (length_s s, take (nat (length_s s)) (chars s))
      in case strings vm key of
           Some a \<Rightarrow> (a, vm)
         | None \<Rightarrow>
             (let (a, vm1) = allocate (OBJ_STRING s) vm
              in (a, vm1\<lparr>strings := (strings vm1)(key \<mapsto> a)\<rparr>)))"

subsection \<open>call and callValue (vm.c lines 127 to 173)\<close>

definition call :: "addr \<Rightarrow> int \<Rightarrow> VM \<Rightarrow> (bool \<times> VM) outcome" where
  "call clo argCount vm =
     (case AS_CLOSURE vm (OBJ_VAL clo) of
        None \<Rightarrow> Undefined
      | Some c \<Rightarrow>
          (case AS_FUNCTION vm (OBJ_VAL (function c)) of
             None \<Rightarrow> Undefined
           | Some fn \<Rightarrow>
               if argCount \<noteq> arity fn then
                 Done (False, runtimeError (Expected_arguments (arity fn) argCount) vm)
               else if frameCount vm = FRAMES_MAX then
                 Done (False, runtimeError Stack_overflow vm)
               else
                 Done (True,
                   vm\<lparr>frames := (frames vm)(frameCount vm :=
                          (frames vm (frameCount vm))
                            \<lparr>closure := clo, ip := 0,
                             slots := stackTop vm - argCount - 1\<rparr>),
                      frameCount := frameCount vm + 1\<rparr>)))"

text \<open>
  \<open>newInstance(klass, false)\<close> (object.c): a fresh instance of the class with an empty
  field table.
\<close>

definition newInstance :: "addr \<Rightarrow> bool \<Rightarrow> VM \<Rightarrow> addr \<times> VM" where
  "newInstance k st vm =
     allocate (OBJ_INSTANCE \<lparr>klass = k, fields_t = Map.empty, isStatic = st\<rparr>) vm"

definition callValue :: "Value \<Rightarrow> int \<Rightarrow> VM \<Rightarrow> (bool \<times> VM) outcome" where
  "callValue callee argCount vm =
     (case callee of
        OBJ_VAL a \<Rightarrow>
          (case heap vm a of
             None \<Rightarrow> Undefined
           | Some (OBJ_BOUND_METHOD bound) \<Rightarrow>
               call (method bound) argCount
                 (vm\<lparr>stack := (stack vm)(stackTop vm - argCount - 1 := receiver bound)\<rparr>)
           | Some (OBJ_CLASS k) \<Rightarrow>
               (let (inst, vm1) = newInstance a False vm;
                    vm2 = vm1\<lparr>stack :=
                            (stack vm1)(stackTop vm1 - argCount - 1 := OBJ_VAL inst)\<rparr>
                in case methods k (initString vm) of
                     Some initializer \<Rightarrow>
                       (case initializer of
                          OBJ_VAL i \<Rightarrow> call i argCount vm2
                        | _ \<Rightarrow> Undefined)
                   | None \<Rightarrow>
                       if argCount \<noteq> 0 then
                         Done (False, runtimeError (Expected_arguments 0 argCount) vm2)
                       else Done (True, vm2))
           | Some (OBJ_CLOSURE c) \<Rightarrow> call a argCount vm
           | Some _ \<Rightarrow> Done (False, runtimeError Only_functions_and_classes_callable vm))
      | _ \<Rightarrow> Done (False, runtimeError Only_functions_and_classes_callable vm))"

subsection \<open>count (vm.c lines 255 to 262)\<close>

text \<open>
  The loop \<open>while (tmp) { count++; tmp++; tmp = wcsstr(tmp, search->chars); }\<close>.
  The second argument is the C string at \<open>tmp\<close>. A match at the terminator itself (only an
  empty needle matches there) makes \<open>tmp++\<close> leave the buffer, and the next \<open>wcsstr\<close>
  reads outside it: \<open>None\<close>.
\<close>

function count_loop :: "wchar list \<Rightarrow> wchar list \<Rightarrow> nat \<Rightarrow> nat option" where
  "count_loop nd r count =
     (case wcsstr r nd of
        None \<Rightarrow> Some count
      | Some k \<Rightarrow>
          if k < length r then count_loop nd (drop (Suc k) r) (Suc count) else None)"
  by pat_completeness auto
termination
  by (relation "measure (\<lambda>(nd, r, count). length r)") auto

declare count_loop.simps [simp del]

definition string_count :: "ObjString \<Rightarrow> ObjString \<Rightarrow> nat option" where
  "string_count str search =
     (case (wcs (chars str), wcs (chars search)) of
        (Some hay, Some nd) \<Rightarrow> count_loop nd hay 0
      | _ \<Rightarrow> None)"

text \<open>The positions of a text at which a needle occurs.\<close>

definition match_positions :: "wchar list \<Rightarrow> wchar list \<Rightarrow> nat list" where
  "match_positions nd hay = filter (\<lambda>i. prefix nd (drop i hay)) [0..<length hay]"

subsection \<open>The character functions of the C library\<close>

text \<open>
  \<open>iswspace\<close>, \<open>towupper\<close> and \<open>towlower\<close> depend on the locale of the process; the
  built-in methods take them as a parameter. \<open>C_locale\<close> is the "C" locale on the ASCII
  range.
\<close>

record wctype =
  iswspace :: "wchar \<Rightarrow> bool"
  towupper :: "wchar \<Rightarrow> wchar"
  towlower :: "wchar \<Rightarrow> wchar"

definition C_locale :: wctype where
  "C_locale =
     \<lparr>iswspace = (\<lambda>c. c = 32 \<or> (9 \<le> c \<and> c \<le> 13)),
      towupper = (\<lambda>c. if 97 \<le> c \<and> c \<le> 122 then c - 32 else c),
      towlower = (\<lambda>c. if 65 \<le> c \<and> c \<le> 90 then c + 32 else c)\<rparr>"

text \<open>\<open>containsChar(input, c)\<close>, vm.c lines 120 to 125; \<open>None\<close> is the NULL input.\<close>

definition containsChar :: "wctype \<Rightarrow> wchar list option \<Rightarrow> wchar \<Rightarrow> bool option" where
  "containsChar L input c =
     (case input of
        None \<Rightarrow> Some (iswspace L c)
      | Some cells \<Rightarrow> map_option (\<lambda>s. c \<in> set s) (wcs cells))"

text \<open>A value of type \<open>size_t\<close> (64 bits): the conversion of an integer to it.\<close>

definition size_t :: "int \<Rightarrow> int" where
  "size_t x = x mod 2 ^ 64"

subsection \<open>trim, trimStart, trimEnd (vm.c lines 360 to 428)\<close>

text \<open>\<open>while(containsChar(remove, *str)) str++;\<close> on the cells from \<open>str\<close> on.\<close>

fun skip_start :: "(wchar \<Rightarrow> bool option) \<Rightarrow> wchar list \<Rightarrow> wchar list option" where
  "skip_start rm [] = None"
| "skip_start rm (c # cs) =
     (case rm c of
        None \<Rightarrow> None
      | Some True \<Rightarrow> skip_start rm cs
      | Some False \<Rightarrow> Some (c # cs))"

text \<open>
  \<open>while(end > str && containsChar(remove, *end)) end--;\<close> with \<open>end\<close> as an index
  relative to \<open>str\<close>.
\<close>

function scan_end :: "(wchar \<Rightarrow> bool option) \<Rightarrow> wchar list \<Rightarrow> int \<Rightarrow> int option" where
  "scan_end rm str e =
     (if e > 0 then
        (if nat e < length str then
           (case rm (str ! nat e) of
              None \<Rightarrow> None
            | Some True \<Rightarrow> scan_end rm str (e - 1)
            | Some False \<Rightarrow> Some e)
         else None)
      else Some e)"
  by pat_completeness auto
termination
  by (relation "measure (\<lambda>(rm, str, e). nat e)") auto

declare scan_end.simps [simp del]

text \<open>
  Lines 371 to 377 (and 422 to 428): \<open>end = str + wcslen(str) - 1\<close>, the backward scan,
  \<open>end++\<close>, and the result size, the smaller of \<open>end - str\<close> and \<open>wcslen(str) - 1\<close>,
  compared as \<open>size_t\<close>.
\<close>

definition trim_tail :: "(wchar \<Rightarrow> bool option) \<Rightarrow> wchar list \<Rightarrow> ObjString option" where
  "trim_tail rm str =
     (case wcslen str of
        None \<Rightarrow> None
      | Some n \<Rightarrow>
          (case scan_end rm str (n - 1) of
             None \<Rightarrow> None
           | Some e \<Rightarrow>
               (let end = e + 1;
                    res_size = (if size_t end < size_t (n - 1) then size_t end
                                else size_t (n - 1))
                in copyString (Some str) res_size)))"

definition string_trim :: "(wchar \<Rightarrow> bool option) \<Rightarrow> wchar list \<Rightarrow> ObjString option" where
  "string_trim rm cells =
     (case skip_start rm cells of
        None \<Rightarrow> None
      | Some [] \<Rightarrow> None
      | Some (c # cs) \<Rightarrow> if c = 0 then copyString None 1 else trim_tail rm (c # cs))"

definition string_trimStart :: "(wchar \<Rightarrow> bool option) \<Rightarrow> wchar list \<Rightarrow> ObjString option" where
  "string_trimStart rm cells =
     (case skip_start rm cells of
        None \<Rightarrow> None
      | Some [] \<Rightarrow> None
      | Some (c # cs) \<Rightarrow>
          if c = 0 then copyString None 1
          else (case wcslen (c # cs) of
                  None \<Rightarrow> None
                | Some n \<Rightarrow> copyString (Some (c # cs)) n))"

definition string_trimEnd :: "(wchar \<Rightarrow> bool option) \<Rightarrow> wchar list \<Rightarrow> ObjString option" where
  "string_trimEnd rm cells = trim_tail rm cells"

subsection \<open>upper, lower (vm.c lines 439 to 447 and 461 to 469)\<close>

text \<open>
  A block of \<open>str->length + 1\<close> cells receives the C string of the receiver with its
  terminator (\<open>wcscpy\<close>, which overruns the block when the C string is longer than the
  length field says), each cell before the terminator is mapped, and \<open>takeString\<close> is
  called with the length \<open>str->length + 1\<close>. The store \<open>chars[str->length + 1] = 0\<close>
  goes to the cell one past the block; the model keeps the block only.
\<close>

definition string_case :: "(wchar \<Rightarrow> wchar) \<Rightarrow> ObjString \<Rightarrow> ObjString option" where
  "string_case tow str =
     (case wcs (chars str) of
        None \<Rightarrow> None
      | Some src \<Rightarrow>
          if length_s str + 1 < int (length src) + 1 then None
          else takeString (map tow src @ [0]) (length_s str + 1))"

subsection \<open>substring (vm.c lines 490 to 513)\<close>

text \<open>
  Modelled from the spec: \<open>isValidStringIndex\<close> and \<open>isValidListIndex\<close> (object.c) accept
  the indices from 0 to the length minus one.
\<close>

definition isValidStringIndex :: "ObjString \<Rightarrow> int \<Rightarrow> bool" where
  "isValidStringIndex str index = (0 \<le> index \<and> index \<le> length_s str - 1)"

definition string_substring :: "ObjString \<Rightarrow> int \<Rightarrow> int \<Rightarrow> Message + ObjString option" where
  "string_substring str begin0 end0 =
     (let begin = (if begin0 < 0 then length_s str + begin0 else begin0);
          end = (if end0 < 0 then length_s str + end0 else end0)
      in if \<not> isValidStringIndex str begin then Inl (Argument_not_valid_index 1)
         else if \<not> isValidStringIndex str (end - 1) then Inl (Argument_not_valid_index 2)
         else if end < begin then Inl End_before_begin
         else if int (length (chars str)) < end then Inr None
         else Inr (takeString
                (take (nat (end - begin)) (drop (nat begin) (chars str)) @ [0])
                (end - begin + 1)))"

subsection \<open>invokeString (vm.c lines 210 to 522)\<close>

text \<open>
  The method names, as the code points of the wide string literals: length, indexOf,
  count, split, replace, trim, trimStart, trimEnd, upper, lower, substring.
\<close>

definition name_length :: "wchar list" where "name_length = [38271, 24230]"
definition name_indexOf :: "wchar list" where "name_indexOf = [25351, 25968]"
definition name_count :: "wchar list" where "name_count = [35745, 25968]"
definition name_split :: "wchar list" where "name_split = [25286, 20998]"
definition name_replace :: "wchar list" where "name_replace = [26367, 25442]"
definition name_trim :: "wchar list" where "name_trim = [20462, 21098]"
definition name_trimStart :: "wchar list" where "name_trimStart = [20462, 21098, 22987]"
definition name_trimEnd :: "wchar list" where "name_trimEnd = [20462, 21098, 31471]"
definition name_upper :: "wchar list" where "name_upper = [22823, 20889]"
definition name_lower :: "wchar list" where "name_lower = [23567, 20889]"
definition name_substring :: "wchar list" where "name_substring = [23376, 20018]"

text \<open>\<open>vm.stackTop -= argCount + 1; push(v);\<close>, the end of every successful built-in.\<close>

definition replace_call :: "Value \<Rightarrow> int \<Rightarrow> VM \<Rightarrow> VM" where
  "replace_call v argCount vm = push v (vm\<lparr>stackTop := stackTop vm - (argCount + 1)\<rparr>)"

definition string_result :: "ObjString option \<Rightarrow> int \<Rightarrow> VM \<Rightarrow> (bool \<times> VM) outcome" where
  "string_result r argCount vm =
     (case r of
        None \<Rightarrow> Undefined
      | Some s \<Rightarrow>
          (let (a, vm1) = intern s vm in Done (True, replace_call (OBJ_VAL a) argCount vm1)))"

definition invokeString_length :: "Value \<Rightarrow> int \<Rightarrow> VM \<Rightarrow> (bool \<times> VM) outcome" where
  "invokeString_length rcv argCount vm =
     (if argCount \<noteq> 0 then Done (False, runtimeError (Expected_arguments 0 argCount) vm)
      else case AS_STRING vm rcv of
             None \<Rightarrow> Undefined
           | Some str \<Rightarrow>
               Done (True, replace_call (NUMBER_VAL (of_int (length_s str))) argCount vm))"

definition invokeString_indexOf :: "Value \<Rightarrow> int \<Rightarrow> VM \<Rightarrow> (bool \<times> VM) outcome" where
  "invokeString_indexOf rcv argCount vm =
     (if argCount \<noteq> 1 then Done (False, runtimeError (Expected_arguments 1 argCount) vm)
      else if \<not> IS_STRING vm (peek vm (argCount - 1)) then
        Done (False,
          runtimeError (Argument_type 1 Kind_string (stack vm (stackTop vm - argCount))) vm)
      else case (AS_STRING vm rcv, AS_STRING vm (peek vm (argCount - 1))) of
             (Some str, Some search) \<Rightarrow>
               (case (wcs (chars str), wcs (chars search)) of
                  (Some hay, Some nd) \<Rightarrow>
                    Done (True,
                      replace_call
                        (NUMBER_VAL (case wcsstr hay nd of
                                       None \<Rightarrow> - 1 | Some k \<Rightarrow> of_nat k))
                        argCount vm)
                | _ \<Rightarrow> Undefined)
           | _ \<Rightarrow> Undefined)"

definition invokeString_count :: "Value \<Rightarrow> int \<Rightarrow> VM \<Rightarrow> (bool \<times> VM) outcome" where
  "invokeString_count rcv argCount vm =
     (if argCount \<noteq> 1 then Done (False, runtimeError (Expected_arguments 1 argCount) vm)
      else if \<not> IS_STRING vm (peek vm (argCount - 1)) then
        Done (False,
          runtimeError (Argument_type 1 Kind_string (stack vm (stackTop vm - argCount))) vm)
      else case (AS_STRING vm rcv, AS_STRING vm (peek vm (argCount - 1))) of
             (Some str, Some search) \<Rightarrow>
               (case string_count str search of
                  None \<Rightarrow> Undefined
                | Some n \<Rightarrow> Done (True, replace_call (NUMBER_VAL (of_nat n)) argCount vm))
           | _ \<Rightarrow> Undefined)"

text \<open>
  The three trimming methods differ in the function applied to the receiver's buffer
  only; \<open>core\<close> is one of \<open>string_trim\<close>, \<open>string_trimStart\<close>, \<open>string_trimEnd\<close>.
  \<open>remove\<close> is the buffer of the argument when there is one, NULL otherwise.
\<close>

definition invokeString_trimming ::
  "((wchar \<Rightarrow> bool option) \<Rightarrow> wchar list \<Rightarrow> ObjString option) \<Rightarrow> wctype \<Rightarrow> Value \<Rightarrow> int \<Rightarrow> VM
     \<Rightarrow> (bool \<times> VM) outcome" where
  "invokeString_trimming core L rcv argCount vm =
     (if argCount > 1 then Done (False, runtimeError (Expected_0_to_1_arguments argCount) vm)
      else if argCount = 1 \<and> \<not> IS_STRING vm (peek vm (argCount - 1)) then
        Done (False,
          runtimeError (Argument_type 1 Kind_string (stack vm (stackTop vm - argCount))) vm)
      else case AS_STRING vm rcv of
             None \<Rightarrow> Undefined
           | Some str \<Rightarrow>
               if argCount \<noteq> 0 then
                 (case AS_STRING vm (peek vm (argCount - 1)) of
                    None \<Rightarrow> Undefined
                  | Some rem \<Rightarrow>
                      string_result (core (containsChar L (Some (chars rem))) (chars str))
                        argCount vm)
               else string_result (core (containsChar L None) (chars str)) argCount vm)"

definition invokeString_case ::
  "(wchar \<Rightarrow> wchar) \<Rightarrow> Value \<Rightarrow> int \<Rightarrow> VM \<Rightarrow> (bool \<times> VM) outcome" where
  "invokeString_case tow rcv argCount vm =
     (if argCount \<noteq> 0 then Done (False, runtimeError (Expected_arguments 0 argCount) vm)
      else case AS_STRING vm rcv of
             None \<Rightarrow> Undefined
           | Some str \<Rightarrow> string_result (string_case tow str) argCount vm)"

definition invokeString_substring :: "Value \<Rightarrow> int \<Rightarrow> VM \<Rightarrow> (bool \<times> VM) outcome" where
  "invokeString_substring rcv argCount vm =
     (if argCount \<noteq> 2 then Done (False, runtimeError (Expected_arguments 2 argCount) vm)
      else if \<not> IS_NUMBER (peek vm (argCount - 1)) then
        Done (False,
          runtimeError (Argument_type 1 Kind_number (stack vm (stackTop vm - argCount))) vm)
      else if \<not> IS_NUMBER (peek vm (argCount - 2)) then
        Done (False,
          runtimeError (Argument_type 2 Kind_number (stack vm (stackTop vm - argCount))) vm)
      else case (AS_STRING vm rcv, AS_INT (peek vm (argCount - 1)),
                 AS_INT (peek vm (argCount - 2))) of
             (Some str, Some begin0, Some end0) \<Rightarrow>
               (case string_substring str begin0 end0 of
                  Inl msg \<Rightarrow> Done (False, runtimeError msg vm)
                | Inr r \<Rightarrow> string_result r argCount vm)
           | _ \<Rightarrow> Undefined)"

text \<open>
  The chain of \<open>wcscmp\<close> tests on the method name. The bodies of split and replace are
  not translated.
\<close>

definition invokeString :: "wctype \<Rightarrow> Value \<Rightarrow> addr \<Rightarrow> int \<Rightarrow> VM \<Rightarrow> (bool \<times> VM) outcome" where
  "invokeString L rcv nm argCount vm =
     (case AS_STRING vm (OBJ_VAL nm) of
        None \<Rightarrow> Undefined
      | Some nms \<Rightarrow>
          (case wcs (chars nms) of
             None \<Rightarrow> Undefined
           | Some n \<Rightarrow>
              if n = name_length then invokeString_length rcv argCount vm
              else if n = name_indexOf then invokeString_indexOf rcv argCount vm
              else if n = name_count then invokeString_count rcv argCount vm
              else if n = name_split then Unmodelled
              else if n = name_replace then Unmodelled
              else if n = name_trim then invokeString_trimming string_trim L rcv argCount vm
              else if n = name_trimStart then
                invokeString_trimming string_trimStart L rcv argCount vm
              else if n = name_trimEnd then
                invokeString_trimming string_trimEnd L rcv argCount vm
              else if n = name_upper then invokeString_case (towupper L) rcv argCount vm
              else if n = name_lower then invokeString_case (towlower L) rcv argCount vm
              else if n = name_substring then invokeString_substring rcv argCount vm
              else Done (False, runtimeError (Undefined_property nm) vm)))"

subsection \<open>invokeList (vm.c lines 524 to 687)\<close>

text \<open>
  Modelled from the spec: \<open>insertToList\<close>, \<open>deleteFromList\<close> and \<open>isValidListIndex\<close> live
  in object.c. A list object is modelled by the sequence of its items.
\<close>

definition isValidListIndex :: "Value list \<Rightarrow> int \<Rightarrow> bool" where
  "isValidListIndex xs index = (0 \<le> index \<and> index \<le> int (length xs) - 1)"

definition insertToList :: "Value list \<Rightarrow> Value \<Rightarrow> int \<Rightarrow> Value list" where
  "insertToList xs item index = take (nat index) xs @ item # drop (nat index) xs"

definition deleteFromList :: "Value list \<Rightarrow> int \<Rightarrow> Value list" where
  "deleteFromList xs index = take (nat index) xs @ drop (nat index + 1) xs"

text \<open>The method names: push, pop, insert, remove (delete), filter, sort.\<close>

definition name_push :: "wchar list" where "name_push = [25512]"
definition name_pop :: "wchar list" where "name_pop = [24377]"
definition name_insert :: "wchar list" where "name_insert = [25554]"
definition name_remove :: "wchar list" where "name_remove = [21024]"
definition name_filter :: "wchar list" where "name_filter = [36807, 28388]"
definition name_sort :: "wchar list" where "name_sort = [25490, 24207]"

text \<open>The list object behind the receiver, with its address.\<close>

definition list_at :: "VM \<Rightarrow> Value \<Rightarrow> (addr \<times> Value list) option" where
  "list_at vm v =
     (case v of
        OBJ_VAL a \<Rightarrow> (case heap vm a of Some (OBJ_LIST xs) \<Rightarrow> Some (a, xs) | _ \<Rightarrow> None)
      | _ \<Rightarrow> None)"

definition store_list :: "addr \<Rightarrow> Value list \<Rightarrow> VM \<Rightarrow> VM" where
  "store_list a xs vm = vm\<lparr>heap := (heap vm)(a \<mapsto> OBJ_LIST xs)\<rparr>"

definition invokeList_push :: "Value \<Rightarrow> int \<Rightarrow> VM \<Rightarrow> (bool \<times> VM) outcome" where
  "invokeList_push rcv argCount vm =
     (if argCount \<noteq> 1 then Done (False, runtimeError (Expected_arguments 1 argCount) vm)
      else case list_at vm rcv of
             None \<Rightarrow> Undefined
           | Some (a, xs) \<Rightarrow>
               (let item = peek vm (argCount - 1);
                    vm1 = store_list a (insertToList xs item (int (length xs))) vm
                in Done (True, replace_call NIL_VAL argCount vm1)))"

definition invokeList_pop :: "Value \<Rightarrow> int \<Rightarrow> VM \<Rightarrow> (bool \<times> VM) outcome" where
  "invokeList_pop rcv argCount vm =
     (if argCount \<noteq> 0 then Done (False, runtimeError (Expected_arguments 0 argCount) vm)
      else case list_at vm rcv of
             None \<Rightarrow> Undefined
           | Some (a, xs) \<Rightarrow>
               if \<not> isValidListIndex xs (int (length xs) - 1) then
                 Done (False, runtimeError Pop_from_empty_list vm)
               else
                 (let vm1 = store_list a (deleteFromList xs (int (length xs) - 1)) vm
                  in Done (True, replace_call NIL_VAL argCount vm1)))"

definition invokeList_insert :: "Value \<Rightarrow> int \<Rightarrow> VM \<Rightarrow> (bool \<times> VM) outcome" where
  "invokeList_insert rcv argCount vm =
     (if argCount \<noteq> 2 then Done (False, runtimeError (Expected_arguments 2 argCount) vm)
      else if \<not> IS_NUMBER (peek vm (argCount - 1)) then
        Done (False,
          runtimeError (Argument_type 1 Kind_number (stack vm (stackTop vm - argCount))) vm)
      else case (list_at vm rcv, AS_INT (peek vm (argCount - 1))) of
             (Some (a, xs), Some index0) \<Rightarrow>
               (let index = (if index0 < 0 then int (length xs) + index0 else index0);
                    item = peek vm (argCount - 2)
                in if \<not> isValidListIndex xs index then
                     Done (False, runtimeError (Argument_not_valid_index 1) vm)
                   else
                     (let vm1 = store_list a (insertToList xs item index) vm
                      in Done (True, replace_call NIL_VAL argCount vm1)))
           | _ \<Rightarrow> Undefined)"

definition invokeList_remove :: "Value \<Rightarrow> int \<Rightarrow> VM \<Rightarrow> (bool \<times> VM) outcome" where
  "invokeList_remove rcv argCount vm =
     (if argCount \<noteq> 1 then Done (False, runtimeError (Expected_arguments 1 argCount) vm)
      else if \<not> IS_NUMBER (peek vm (argCount - 1)) then
        Done (False,
          runtimeError (Argument_type 1 Kind_number (stack vm (stackTop vm - argCount))) vm)
      else case (list_at vm rcv, AS_INT (peek vm (argCount - 1))) of
             (Some (a, xs), Some index0) \<Rightarrow>
               (let index = (if index0 < 0 then int (length xs) + index0 else index0)
                in if \<not> isValidListIndex xs index then
                     Done (False, runtimeError (Argument_not_valid_index 1) vm)
                   else
                     (let vm1 = store_list a (deleteFromList xs index) vm
                      in Done (True, replace_call NIL_VAL argCount vm1)))
           | _ \<Rightarrow> Undefined)"

definition invokeList_length :: "Value \<Rightarrow> int \<Rightarrow> VM \<Rightarrow> (bool \<times> VM) outcome" where
  "invokeList_length rcv argCount vm =
     (if argCount \<noteq> 0 then Done (False, runtimeError (Expected_arguments 0 argCount) vm)
      else case list_at vm rcv of
             None \<Rightarrow> Undefined
           | Some (a, xs) \<Rightarrow>
               Done (True, replace_call (NUMBER_VAL (of_nat (length xs))) argCount vm))"

text \<open>
  The chain of \<open>wcscmp\<close> tests. filter and sort call back into the dispatch loop and into
  \<open>sortList\<close> of object.c; their bodies are not translated.
\<close>

definition invokeList :: "Value \<Rightarrow> addr \<Rightarrow> int \<Rightarrow> VM \<Rightarrow> (bool \<times> VM) outcome" where
  "invokeList rcv nm argCount vm =
     (case AS_STRING vm (OBJ_VAL nm) of
        None \<Rightarrow> Undefined
      | Some nms \<Rightarrow>
          (case wcs (chars nms) of
             None \<Rightarrow> Undefined
           | Some n \<Rightarrow>
              if n = name_push then invokeList_push rcv argCount vm
              else if n = name_pop then invokeList_pop rcv argCount vm
              else if n = name_insert then invokeList_insert rcv argCount vm
              else if n = name_remove then invokeList_remove rcv argCount vm
              else if n = name_length then invokeList_length rcv argCount vm
              else if n = name_filter then Unmodelled
              else if n = name_sort then Unmodelled
              else Done (False, runtimeError (Undefined_property nm) vm)))"

subsection \<open>invokeFromClass, invokeInstance, invoke (vm.c lines 175 to 208, 689 to 703)\<close>

text \<open>
  Modelled from the spec: \<open>tableGet\<close>, \<open>tableSet\<close> and \<open>tableAddAll\<close> live in table.c;
  \<open>tableGet(t, k, &v)\<close> is the lookup \<open>t k\<close>, \<open>tableSet\<close> stores a value under a key,
  and \<open>tableAddAll(from, to)\<close> stores every entry of \<open>from\<close> in \<open>to\<close>.
\<close>

definition tableSet :: "Table \<Rightarrow> addr \<Rightarrow> Value \<Rightarrow> Table" where
  "tableSet t k v = t(k \<mapsto> v)"

definition tableAddAll :: "Table \<Rightarrow> Table \<Rightarrow> Table" where
  "tableAddAll from to = to ++ from"

text \<open>A native method is a C function pointer; calling it is not translated.\<close>

definition invokeFromClass ::
  "addr \<Rightarrow> bool \<Rightarrow> addr \<Rightarrow> int \<Rightarrow> VM \<Rightarrow> (bool \<times> VM) outcome" where
  "invokeFromClass k static nm argCount vm =
     (case AS_CLASS vm (OBJ_VAL k) of
        None \<Rightarrow> Undefined
      | Some cls \<Rightarrow>
          (case methods cls nm of
             None \<Rightarrow> Done (False, runtimeError (Undefined_property nm) vm)
           | Some m \<Rightarrow>
               if \<not> static then
                 (case m of OBJ_VAL c \<Rightarrow> call c argCount vm | _ \<Rightarrow> Undefined)
               else
                 (case AS_NATIVE vm m of
                    None \<Rightarrow> Undefined
                  | Some native_arity \<Rightarrow>
                      if native_arity \<noteq> - 1 \<and> argCount \<noteq> native_arity then
                        Done (False,
                          runtimeError (Expected_arguments native_arity argCount) vm)
                      else Unmodelled)))"

definition invokeInstance :: "Value \<Rightarrow> addr \<Rightarrow> int \<Rightarrow> VM \<Rightarrow> (bool \<times> VM) outcome" where
  "invokeInstance rcv nm argCount vm =
     (case AS_INSTANCE vm rcv of
        None \<Rightarrow> Undefined
      | Some instance \<Rightarrow>
          (case fields_t instance nm of
             Some v \<Rightarrow>
               callValue v argCount
                 (vm\<lparr>stack := (stack vm)(stackTop vm - argCount - 1 := v)\<rparr>)
           | None \<Rightarrow> invokeFromClass (klass instance) (isStatic instance) nm argCount vm))"

definition invoke :: "wctype \<Rightarrow> addr \<Rightarrow> int \<Rightarrow> VM \<Rightarrow> (bool \<times> VM) outcome" where
  "invoke L nm argCount vm =
     (let rcv = peek vm argCount
      in if IS_INSTANCE vm rcv then invokeInstance rcv nm argCount vm
         else if IS_STRING vm rcv then invokeString L rcv nm argCount vm
         else if IS_LIST vm rcv then invokeList rcv nm argCount vm
         else Done (False, runtimeError Only_instances_strings_lists_have_methods vm))"

subsection \<open>captureUpvalue and closeUpvalues (vm.c lines 722 to 752)\<close>

text \<open>The stack slot an upvalue object at an address points to, when it is open.\<close>

definition slot_of :: "(addr \<rightharpoonup> Obj) \<Rightarrow> addr \<Rightarrow> int option" where
  "slot_of h a =
     (case h a of
        Some (OBJ_UPVALUE uv) \<Rightarrow> (case location uv of Slot i \<Rightarrow> Some i | Own_closed \<Rightarrow> None)
      | _ \<Rightarrow> None)"

text \<open>
  The loop \<open>while (upvalue != NULL && upvalue->location > local)\<close>: the upvalues passed
  (the last of them is \<open>prevUpvalue\<close>) and the rest of the chain, which starts at
  \<open>upvalue\<close>. Comparing \<open>local\<close> with a location that is no stack slot has no meaning.
\<close>

fun scan_open :: "(addr \<rightharpoonup> Obj) \<Rightarrow> int \<Rightarrow> addr list \<Rightarrow> (addr list \<times> addr list) option" where
  "scan_open h local [] = Some ([], [])"
| "scan_open h local (u # us) =
     (case slot_of h u of
        None \<Rightarrow> None
      | Some i \<Rightarrow>
          if i > local then
            (case scan_open h local us of
               None \<Rightarrow> None
             | Some (passed, rest) \<Rightarrow> Some (u # passed, rest))
          else Some ([], u # us))"

text \<open>Modelled from the spec: \<open>newUpvalue(slot)\<close> (object.c) makes an open upvalue.\<close>

definition newUpvalue :: "int \<Rightarrow> VM \<Rightarrow> addr \<times> VM" where
  "newUpvalue slot vm = allocate (OBJ_UPVALUE \<lparr>location = Slot slot, closed = NIL_VAL\<rparr>) vm"

definition captureUpvalue :: "int \<Rightarrow> VM \<Rightarrow> (addr \<times> VM) outcome" where
  "captureUpvalue local vm =
     (case scan_open (heap vm) local (openUpvalues vm) of
        None \<Rightarrow> Undefined
      | Some (passed, rest) \<Rightarrow>
          if rest \<noteq> [] \<and> slot_of (heap vm) (hd rest) = Some local then Done (hd rest, vm)
          else
            (let (createdUpvalue, vm1) = newUpvalue local vm
             in Done (createdUpvalue,
                  vm1\<lparr>openUpvalues := passed @ createdUpvalue # rest\<rparr>)))"

text \<open>
  The loop of \<open>closeUpvalues(last)\<close> on the chain: the head is closed and unlinked while
  its location is at or above \<open>last\<close>.
\<close>

fun close_loop ::
  "int \<Rightarrow> (int \<Rightarrow> Value) \<Rightarrow> (addr \<rightharpoonup> Obj) \<Rightarrow> addr list \<Rightarrow> ((addr \<rightharpoonup> Obj) \<times> addr list) option" where
  "close_loop last_p stk h [] = Some (h, [])"
| "close_loop last_p stk h (u # us) =
     (case slot_of h u of
        None \<Rightarrow> None
      | Some i \<Rightarrow>
          if i \<ge> last_p then
            close_loop last_p stk
              (h(u \<mapsto> OBJ_UPVALUE \<lparr>location = Own_closed, closed = stk i\<rparr>)) us
          else Some (h, u # us))"

definition closeUpvalues :: "int \<Rightarrow> VM \<Rightarrow> VM outcome" where
  "closeUpvalues last_p vm =
     (case close_loop last_p (stack vm) (heap vm) (openUpvalues vm) of
        None \<Rightarrow> Undefined
      | Some (h, us) \<Rightarrow> Done (vm\<lparr>heap := h, openUpvalues := us\<rparr>))"

subsection \<open>The dispatch loop (vm.c lines 772 to 1303)\<close>

text \<open>The opcodes of chunk.h: the values of the enum \<open>OpCode\<close>, as bytes.\<close>

type_synonym OpCode = "8 word"

definition OP_CONSTANT :: OpCode where "OP_CONSTANT = 0"
definition OP_NIL :: OpCode where "OP_NIL = 1"
definition OP_TRUE :: OpCode where "OP_TRUE = 2"
definition OP_FALSE :: OpCode where "OP_FALSE = 3"
definition OP_POP :: OpCode where "OP_POP = 4"
definition OP_GET_LOCAL :: OpCode where "OP_GET_LOCAL = 5"
definition OP_SET_LOCAL :: OpCode where "OP_SET_LOCAL = 6"
definition OP_GET_GLOBAL :: OpCode where "OP_GET_GLOBAL = 7"
definition OP_DEFINE_GLOBAL :: OpCode where "OP_DEFINE_GLOBAL = 8"
definition OP_SET_GLOBAL :: OpCode where "OP_SET_GLOBAL = 9"
definition OP_GET_UPVALUE :: OpCode where "OP_GET_UPVALUE = 10"
definition OP_SET_UPVALUE :: OpCode where "OP_SET_UPVALUE = 11"
definition OP_GET_PROPERTY :: OpCode where "OP_GET_PROPERTY = 12"
definition OP_SET_PROPERTY :: OpCode where "OP_SET_PROPERTY = 13"
definition OP_GET_SUPER :: OpCode where "OP_GET_SUPER = 14"
definition OP_BUILD_LIST :: OpCode where "OP_BUILD_LIST = 15"
definition OP_INDEX_SUBSCR :: OpCode where "OP_INDEX_SUBSCR = 16"
definition OP_STORE_SUBSCR :: OpCode where "OP_STORE_SUBSCR = 17"
definition OP_EQUAL :: OpCode where "OP_EQUAL = 18"
definition OP_GREATER :: OpCode where "OP_GREATER = 19"
definition OP_LESS :: OpCode where "OP_LESS = 20"
definition OP_ADD :: OpCode where "OP_ADD = 21"
definition OP_SUBTRACT :: OpCode where "OP_SUBTRACT = 22"
definition OP_BITWISE_NOT :: OpCode where "OP_BITWISE_NOT = 23"
definition OP_BITWISE_OR :: OpCode where "OP_BITWISE_OR = 24"
definition OP_BITWISE_XOR :: OpCode where "OP_BITWISE_XOR = 25"
definition OP_BITWISE_AND :: OpCode where "OP_BITWISE_AND = 26"
definition OP_BITWISE_LEFT_SHIFT :: OpCode where "OP_BITWISE_LEFT_SHIFT = 27"
definition OP_BITWISE_RIGHT_SHIFT :: OpCode where "OP_BITWISE_RIGHT_SHIFT = 28"
definition OP_INCREMENT :: OpCode where "OP_INCREMENT = 29"
definition OP_DECREMENT :: OpCode where "OP_DECREMENT = 30"
definition OP_MULTIPLY :: OpCode where "OP_MULTIPLY = 31"
definition OP_DIVIDE :: OpCode where "OP_DIVIDE = 32"
definition OP_MODULO :: OpCode where "OP_MODULO = 33"
definition OP_NOT :: OpCode where "OP_NOT = 34"
definition OP_NEGATE :: OpCode where "OP_NEGATE = 35"
definition OP_JUMP :: OpCode where "OP_JUMP = 36"
definition OP_JUMP_IF_FALSE :: OpCode where "OP_JUMP_IF_FALSE = 37"
definition OP_LOOP :: OpCode where "OP_LOOP = 38"
definition OP_CALL :: OpCode where "OP_CALL = 39"
definition OP_INVOKE :: OpCode where "OP_INVOKE = 40"
definition OP_SUPER_INVOKE :: OpCode where "OP_SUPER_INVOKE = 41"
definition OP_CLOSURE :: OpCode where "OP_CLOSURE = 42"
definition OP_CLOSE_UPVALUE :: OpCode where "OP_CLOSE_UPVALUE = 43"
definition OP_RETURN :: OpCode where "OP_RETURN = 44"
definition OP_CLASS :: OpCode where "OP_CLASS = 45"
definition OP_INHERIT :: OpCode where "OP_INHERIT = 46"
definition OP_METHOD :: OpCode where "OP_METHOD = 47"
definition OP_DUP :: OpCode where "OP_DUP = 48"
definition OP_DOUBLE_DUP :: OpCode where "OP_DOUBLE_DUP = 49"
definition OP_END :: OpCode where "OP_END = 50"

lemmas OpCode_defs =
  OP_CONSTANT_def OP_NIL_def OP_TRUE_def OP_FALSE_def OP_POP_def OP_GET_LOCAL_def
  OP_SET_LOCAL_def OP_GET_GLOBAL_def OP_DEFINE_GLOBAL_def OP_SET_GLOBAL_def
  OP_GET_UPVALUE_def OP_SET_UPVALUE_def OP_GET_PROPERTY_def OP_SET_PROPERTY_def
  OP_GET_SUPER_def OP_BUILD_LIST_def OP_INDEX_SUBSCR_def OP_STORE_SUBSCR_def OP_EQUAL_def
  OP_GREATER_def OP_LESS_def OP_ADD_def OP_SUBTRACT_def OP_BITWISE_NOT_def
  OP_BITWISE_OR_def OP_BITWISE_XOR_def OP_BITWISE_AND_def OP_BITWISE_LEFT_SHIFT_def
  OP_BITWISE_RIGHT_SHIFT_def OP_INCREMENT_def OP_DECREMENT_def OP_MULTIPLY_def
  OP_DIVIDE_def OP_MODULO_def OP_NOT_def OP_NEGATE_def OP_JUMP_def OP_JUMP_IF_FALSE_def
  OP_LOOP_def OP_CALL_def OP_INVOKE_def OP_SUPER_INVOKE_def OP_CLOSURE_def
  OP_CLOSE_UPVALUE_def OP_RETURN_def OP_CLASS_def OP_INHERIT_def OP_METHOD_def OP_DUP_def
  OP_DOUBLE_DUP_def OP_END_def

datatype InterpretResult = INTERPRET_OK | INTERPRET_COMPILE_ERROR | INTERPRET_RUNTIME_ERROR

text \<open>
  The loop keeps the instruction pointer of the running frame in a register and writes
  it back to the frame before calls and errors; the model keeps it in the frame, as an
  index into the code of the frame's function. The running frame is the topmost one.
\<close>

definition cur_frame :: "VM \<Rightarrow> CallFrame" where
  "cur_frame vm = frames vm (frameCount vm - 1)"

definition set_cur_frame :: "CallFrame \<Rightarrow> VM \<Rightarrow> VM" where
  "set_cur_frame f vm = vm\<lparr>frames := (frames vm)(frameCount vm - 1 := f)\<rparr>"

definition cur_chunk :: "VM \<Rightarrow> Chunk option" where
  "cur_chunk vm =
     (case AS_CLOSURE vm (OBJ_VAL (closure (cur_frame vm))) of
        None \<Rightarrow> None
      | Some c \<Rightarrow> map_option chunk (AS_FUNCTION vm (OBJ_VAL (function c))))"

definition READ_BYTE :: "VM \<Rightarrow> (8 word \<times> VM) option" where
  "READ_BYTE vm =
     (case cur_chunk vm of
        None \<Rightarrow> None
      | Some ch \<Rightarrow>
          (let f = cur_frame vm
           in if 0 \<le> ip f \<and> ip f < int (length (code ch)) then
                Some (code ch ! nat (ip f), set_cur_frame (f\<lparr>ip := ip f + 1\<rparr>) vm)
              else None))"

definition READ_SHORT :: "VM \<Rightarrow> (int \<times> VM) option" where
  "READ_SHORT vm =
     (case READ_BYTE vm of
        None \<Rightarrow> None
      | Some (hi, vm1) \<Rightarrow>
          (case READ_BYTE vm1 of
             None \<Rightarrow> None
           | Some (lo, vm2) \<Rightarrow> Some (int (unat hi) * 256 + int (unat lo), vm2)))"

definition READ_CONSTANT :: "VM \<Rightarrow> (Value \<times> VM) option" where
  "READ_CONSTANT vm =
     (case READ_BYTE vm of
        None \<Rightarrow> None
      | Some (b, vm1) \<Rightarrow>
          (case cur_chunk vm of
             None \<Rightarrow> None
           | Some ch \<Rightarrow>
               if unat b < length (constants ch) then Some (constants ch ! unat b, vm1)
               else None))"

text \<open>\<open>READ_STRING()\<close>: the constant, cast to a string object; the result is its address.\<close>

definition READ_STRING :: "VM \<Rightarrow> (addr \<times> VM) option" where
  "READ_STRING vm =
     (case READ_CONSTANT vm of
        Some (OBJ_VAL a, vm1) \<Rightarrow> if IS_STRING vm (OBJ_VAL a) then Some (a, vm1) else None
      | _ \<Rightarrow> None)"

definition isFalsey :: "Value \<Rightarrow> bool" where
  "isFalsey v = (v = NIL_VAL \<or> v = BOOL_VAL False)"

text \<open>
  \<open>bindMethod\<close>, vm.c lines 705 to 720. \<open>newBoundMethod\<close> is in object.c; binding a
  native method (\<open>newBoundNative\<close>) is not translated.
\<close>

definition bindMethod :: "addr \<Rightarrow> addr \<Rightarrow> VM \<Rightarrow> (bool \<times> VM) outcome" where
  "bindMethod k nm vm =
     (case AS_CLASS vm (OBJ_VAL k) of
        None \<Rightarrow> Undefined
      | Some cls \<Rightarrow>
          (case methods cls nm of
             None \<Rightarrow> Done (False, runtimeError (Undefined_property nm) vm)
           | Some m \<Rightarrow>
               if IS_NATIVE vm m then Unmodelled
               else
                 (case m of
                    OBJ_VAL c \<Rightarrow>
                      (let (bound, vm1) =
                             allocate (OBJ_BOUND_METHOD \<lparr>receiver = peek vm 0, method = c\<rparr>) vm
                       in Done (True, push (OBJ_VAL bound) (snd (pop vm1))))
                  | _ \<Rightarrow> Undefined)))"

text \<open>\<open>defineMethod\<close>, vm.c lines 754 to 759.\<close>

definition defineMethod :: "addr \<Rightarrow> VM \<Rightarrow> VM option" where
  "defineMethod nm vm =
     (case peek vm 1 of
        OBJ_VAL k \<Rightarrow>
          (case heap vm k of
             Some (OBJ_CLASS cls) \<Rightarrow>
               Some (snd (pop (vm\<lparr>heap := (heap vm)(k \<mapsto>
                       OBJ_CLASS (cls\<lparr>methods := tableSet (methods cls) nm (peek vm 0)\<rparr>))\<rparr>)))
           | _ \<Rightarrow> None)
      | _ \<Rightarrow> None)"

text \<open>
  One case of the \<open>switch\<close> each. The result of a case is the state and, when the case
  returns from \<open>run\<close>, the value returned.
\<close>

type_synonym step_result = "(InterpretResult option \<times> VM) outcome"

definition fail :: "Message \<Rightarrow> VM \<Rightarrow> step_result" where
  "fail msg vm = Done (Some INTERPRET_RUNTIME_ERROR, runtimeError msg vm)"

definition after_call :: "(bool \<times> VM) outcome \<Rightarrow> step_result" where
  "after_call r =
     (case r of
        Done (ok, vm) \<Rightarrow> Done (if ok then None else Some INTERPRET_RUNTIME_ERROR, vm)
      | Undefined \<Rightarrow> Undefined
      | Unmodelled \<Rightarrow> Unmodelled
      | OutOfFuel \<Rightarrow> OutOfFuel)"

definition op_get_property :: "VM \<Rightarrow> step_result" where
  "op_get_property vm =
     (if \<not> IS_INSTANCE vm (peek vm 0) then fail Only_instances_have_properties vm
      else case (AS_INSTANCE vm (peek vm 0), READ_STRING vm) of
             (Some instance, Some (nm, vm1)) \<Rightarrow>
               (case fields_t instance nm of
                  Some v \<Rightarrow> Done (None, push v (snd (pop vm1)))
                | None \<Rightarrow> after_call (bindMethod (klass instance) nm vm1))
           | _ \<Rightarrow> Undefined)"

definition op_call :: "VM \<Rightarrow> step_result" where
  "op_call vm =
     (case READ_BYTE vm of
        None \<Rightarrow> Undefined
      | Some (b, vm1) \<Rightarrow>
          (let argCount = int (unat b)
           in after_call (callValue (peek vm1 argCount) argCount vm1)))"

definition op_invoke :: "wctype \<Rightarrow> VM \<Rightarrow> step_result" where
  "op_invoke L vm =
     (case READ_STRING vm of
        None \<Rightarrow> Undefined
      | Some (nm, vm1) \<Rightarrow>
          (case READ_BYTE vm1 of
             None \<Rightarrow> Undefined
           | Some (b, vm2) \<Rightarrow> after_call (invoke L nm (int (unat b)) vm2)))"

definition op_close_upvalue :: "VM \<Rightarrow> step_result" where
  "op_close_upvalue vm =
     (case closeUpvalues (stackTop vm - 1) vm of
        Done vm1 \<Rightarrow> Done (None, snd (pop vm1))
      | Undefined \<Rightarrow> Undefined
      | Unmodelled \<Rightarrow> Unmodelled
      | OutOfFuel \<Rightarrow> OutOfFuel)"

text \<open>
  \<open>OP_RETURN\<close>, lines 1108 to 1127. \<open>frame\<close> stays the returning frame until the last
  two statements; \<open>fc\<close> is its index.
\<close>

definition op_return :: "VM \<Rightarrow> step_result" where
  "op_return vm =
     (let fc = frameCount vm - 1;
          frame = frames vm fc;
          (result, vm1) = pop vm
      in case closeUpvalues (slots frame) vm1 of
           Done vm2 \<Rightarrow>
             (let vm3 = vm2\<lparr>frameCount := frameCount vm2 - 1\<rparr>
              in if frameCount vm3 = 0 then Done (Some INTERPRET_OK, snd (pop vm3))
                 else if callClosure frame then
                   (let vm4 = push result vm3
                    in Done (Some INTERPRET_OK,
                         vm4\<lparr>frames := (frames vm4)(fc := (frames vm4 fc)\<lparr>callClosure := False\<rparr>)\<rparr>))
                 else Done (None, push result (vm3\<lparr>stackTop := slots frame\<rparr>)))
         | Undefined \<Rightarrow> Undefined
         | Unmodelled \<Rightarrow> Unmodelled
         | OutOfFuel \<Rightarrow> OutOfFuel)"

text \<open>\<open>newClass(name)\<close> (object.c): a class with an empty method table.\<close>

definition op_class :: "VM \<Rightarrow> step_result" where
  "op_class vm =
     (case READ_STRING vm of
        None \<Rightarrow> Undefined
      | Some (nm, vm1) \<Rightarrow>
          (let (k, vm2) = allocate (OBJ_CLASS \<lparr>name = nm, methods = Map.empty\<rparr>) vm1
           in Done (None, push (OBJ_VAL k) vm2)))"

text \<open>\<open>OP_INHERIT\<close>, lines 1131 to 1142.\<close>

definition op_inherit :: "VM \<Rightarrow> step_result" where
  "op_inherit vm =
     (let superclass = peek vm 1
      in case AS_CLASS vm superclass of
           None \<Rightarrow> fail Superclass_must_be_class vm
         | Some super \<Rightarrow>
             (case peek vm 0 of
                OBJ_VAL sub \<Rightarrow>
                  (case heap vm sub of
                     Some (OBJ_CLASS subclass) \<Rightarrow>
                       (let vm1 = vm\<lparr>heap := (heap vm)(sub \<mapsto>
                                    OBJ_CLASS (subclass\<lparr>methods :=
                                      tableAddAll (methods super) (methods subclass)\<rparr>))\<rparr>
                        in Done (None, snd (pop vm1)))
                   | _ \<Rightarrow> Undefined)
              | _ \<Rightarrow> Undefined))"

definition op_local :: "bool \<Rightarrow> VM \<Rightarrow> step_result" where
  "op_local write vm =
     (case READ_BYTE vm of
        None \<Rightarrow> Undefined
      | Some (b, vm1) \<Rightarrow>
          (let slot = slots (cur_frame vm1) + int (unat b)
           in if write then Done (None, vm1\<lparr>stack := (stack vm1)(slot := peek vm1 0)\<rparr>)
              else Done (None, push (stack vm1 slot) vm1)))"

definition op_jump :: "OpCode \<Rightarrow> VM \<Rightarrow> step_result" where
  "op_jump opc vm =
     (case READ_SHORT vm of
        None \<Rightarrow> Undefined
      | Some (offset, vm1) \<Rightarrow>
          (let f = cur_frame vm1
           in if opc = OP_LOOP then Done (None, set_cur_frame (f\<lparr>ip := ip f - offset\<rparr>) vm1)
              else if opc = OP_JUMP \<or> isFalsey (peek vm1 0) then
                Done (None, set_cur_frame (f\<lparr>ip := ip f + offset\<rparr>) vm1)
              else Done (None, vm1)))"

text \<open>
  \<open>OP_GET_UPVALUE\<close> and \<open>OP_SET_UPVALUE\<close>, lines 887 to 896: a read or a write through
  the \<open>location\<close> of the upvalue in a slot of the running closure's array.
\<close>

definition cur_upvalue :: "nat \<Rightarrow> VM \<Rightarrow> (addr \<times> ObjUpvalue) option" where
  "cur_upvalue slot vm =
     (case AS_CLOSURE vm (OBJ_VAL (closure (cur_frame vm))) of
        None \<Rightarrow> None
      | Some c \<Rightarrow>
          if slot < length (upvalues c) then
            (case upvalues c ! slot of
               None \<Rightarrow> None
             | Some u \<Rightarrow>
                 (case heap vm u of
                    Some (OBJ_UPVALUE uv) \<Rightarrow> Some (u, uv)
                  | _ \<Rightarrow> None))
          else None)"

definition op_upvalue :: "bool \<Rightarrow> VM \<Rightarrow> step_result" where
  "op_upvalue write vm =
     (case READ_BYTE vm of
        None \<Rightarrow> Undefined
      | Some (b, vm1) \<Rightarrow>
          (case cur_upvalue (unat b) vm1 of
             None \<Rightarrow> Undefined
           | Some (u, uv) \<Rightarrow>
               (case location uv of
                  Slot i \<Rightarrow>
                    if write then Done (None, vm1\<lparr>stack := (stack vm1)(i := peek vm1 0)\<rparr>)
                    else Done (None, push (stack vm1 i) vm1)
                | Own_closed \<Rightarrow>
                    if write then
                      Done (None,
                        vm1\<lparr>heap := (heap vm1)(u \<mapsto> OBJ_UPVALUE (uv\<lparr>closed := peek vm1 0\<rparr>))\<rparr>)
                    else Done (None, push (closed uv) vm1))))"

text \<open>
  \<open>OP_CLOSURE\<close>, lines 1089 to 1103. Modelled from the spec: \<open>newClosure(function)\<close>
  (object.c) makes a closure of the function with an array of \<open>upvalueCount\<close> NULL
  pointers. The loop fills slot \<open>i\<close> of the array of the closure at address \<open>c\<close>;
  \<open>n\<close> is the number of slots still to fill.
\<close>

definition set_closure_upvalue :: "addr \<Rightarrow> nat \<Rightarrow> addr option \<Rightarrow> VM \<Rightarrow> VM option" where
  "set_closure_upvalue c i u vm =
     (case heap vm c of
        Some (OBJ_CLOSURE clo) \<Rightarrow>
          if i < length (upvalues clo) then
            Some (vm\<lparr>heap := (heap vm)(c \<mapsto>
                    OBJ_CLOSURE (clo\<lparr>upvalues := (upvalues clo)[i := u]\<rparr>))\<rparr>)
          else None
      | _ \<Rightarrow> None)"

fun capture_loop :: "addr \<Rightarrow> nat \<Rightarrow> nat \<Rightarrow> VM \<Rightarrow> VM outcome" where
  "capture_loop c i 0 vm = Done vm"
| "capture_loop c i (Suc n) vm =
     (case READ_BYTE vm of
        None \<Rightarrow> Undefined
      | Some (isLocal, vm1) \<Rightarrow>
          (case READ_BYTE vm1 of
             None \<Rightarrow> Undefined
           | Some (index, vm2) \<Rightarrow>
               if isLocal \<noteq> 0 then
                 (case captureUpvalue (slots (cur_frame vm2) + int (unat index)) vm2 of
                    Done (u, vm3) \<Rightarrow>
                      (case set_closure_upvalue c i (Some u) vm3 of
                         None \<Rightarrow> Undefined
                       | Some vm4 \<Rightarrow> capture_loop c (Suc i) n vm4)
                  | Undefined \<Rightarrow> Undefined
                  | Unmodelled \<Rightarrow> Unmodelled
                  | OutOfFuel \<Rightarrow> OutOfFuel)
               else
                 (case AS_CLOSURE vm2 (OBJ_VAL (closure (cur_frame vm2))) of
                    None \<Rightarrow> Undefined
                  | Some enclosing \<Rightarrow>
                      if unat index < length (upvalues enclosing) then
                        (case set_closure_upvalue c i (upvalues enclosing ! unat index) vm2 of
                           None \<Rightarrow> Undefined
                         | Some vm4 \<Rightarrow> capture_loop c (Suc i) n vm4)
                      else Undefined)))"

definition op_closure :: "VM \<Rightarrow> step_result" where
  "op_closure vm =
     (case READ_CONSTANT vm of
        Some (OBJ_VAL f, vm1) \<Rightarrow>
          (case AS_FUNCTION vm1 (OBJ_VAL f) of
             None \<Rightarrow> Undefined
           | Some fn \<Rightarrow>
               (let (c, vm2) =
                      allocate (OBJ_CLOSURE
                        \<lparr>function = f,
                         upvalues = replicate (nat (upvalueCount fn)) None\<rparr>) vm1
                in case capture_loop c 0 (nat (upvalueCount fn)) (push (OBJ_VAL c) vm2) of
                     Done vm3 \<Rightarrow> Done (None, vm3)
                   | Undefined \<Rightarrow> Undefined
                   | Unmodelled \<Rightarrow> Unmodelled
                   | OutOfFuel \<Rightarrow> OutOfFuel))
      | _ \<Rightarrow> Undefined)"

text \<open>
  The \<open>switch\<close>. The cases for globals, fields, arithmetic, comparison, subscripts,
  lists and super calls (\<open>untranslated\<close>) are not translated. \<open>OP_END\<close> and the bytes
  above it have no case: the loop goes on to the next byte.
\<close>

definition untranslated :: "OpCode list" where
  "untranslated =
      [OP_GET_GLOBAL, OP_DEFINE_GLOBAL, OP_SET_GLOBAL, OP_SET_PROPERTY, OP_GET_SUPER,
       OP_BUILD_LIST, OP_INDEX_SUBSCR, OP_STORE_SUBSCR, OP_EQUAL, OP_GREATER, OP_LESS,
       OP_ADD, OP_SUBTRACT, OP_BITWISE_NOT, OP_BITWISE_OR, OP_BITWISE_XOR,
       OP_BITWISE_AND, OP_BITWISE_LEFT_SHIFT, OP_BITWISE_RIGHT_SHIFT, OP_INCREMENT,
       OP_DECREMENT, OP_MULTIPLY, OP_DIVIDE, OP_MODULO, OP_NEGATE, OP_SUPER_INVOKE]"

definition step :: "wctype \<Rightarrow> VM \<Rightarrow> step_result" where
  "step L vm =
     (case READ_BYTE vm of
        None \<Rightarrow> Undefined
      | Some (b, vm1) \<Rightarrow>
          if b = OP_CONSTANT then
            (case READ_CONSTANT vm1 of
               None \<Rightarrow> Undefined
             | Some (constant, vm2) \<Rightarrow> Done (None, push constant vm2))
          else if b = OP_NIL then Done (None, push NIL_VAL vm1)
          else if b = OP_TRUE then Done (None, push (BOOL_VAL True) vm1)
          else if b = OP_FALSE then Done (None, push (BOOL_VAL False) vm1)
          else if b = OP_POP then Done (None, snd (pop vm1))
          else if b = OP_SET_LOCAL then op_local True vm1
          else if b = OP_GET_LOCAL then op_local False vm1
          else if b = OP_GET_UPVALUE then op_upvalue False vm1
          else if b = OP_SET_UPVALUE then op_upvalue True vm1
          else if b = OP_GET_PROPERTY then op_get_property vm1
          else if b = OP_NOT then
            (let (v, vm2) = pop vm1 in Done (None, push (BOOL_VAL (isFalsey v)) vm2))
          else if b = OP_JUMP \<or> b = OP_JUMP_IF_FALSE \<or> b = OP_LOOP then op_jump b vm1
          else if b = OP_CALL then op_call vm1
          else if b = OP_INVOKE then op_invoke L vm1
          else if b = OP_CLOSURE then op_closure vm1
          else if b = OP_CLOSE_UPVALUE then op_close_upvalue vm1
          else if b = OP_RETURN then op_return vm1
          else if b = OP_CLASS then op_class vm1
          else if b = OP_INHERIT then op_inherit vm1
          else if b = OP_METHOD then
            (case READ_STRING vm1 of
               None \<Rightarrow> Undefined
             | Some (nm, vm2) \<Rightarrow>
                 (case defineMethod nm vm2 of
                    None \<Rightarrow> Undefined
                  | Some vm3 \<Rightarrow> Done (None, vm3)))
          else if b = OP_DUP then Done (None, push (peek vm1 0) vm1)
          else if b = OP_DOUBLE_DUP then
            (let vm2 = push (peek vm1 1) vm1 in Done (None, push (peek vm2 1) vm2))
          else if b \<in> set untranslated then Unmodelled
          else Done (None, vm1))"

text \<open>The \<open>for(;;)\<close> loop, with a bound on the number of instructions.\<close>

fun run :: "wctype \<Rightarrow> nat \<Rightarrow> VM \<Rightarrow> (InterpretResult \<times> VM) outcome" where
  "run L 0 vm = OutOfFuel"
| "run L (Suc fuel) vm =
     (case step L vm of
        Done (None, vm1) \<Rightarrow> run L fuel vm1
      | Done (Some r, vm1) \<Rightarrow> Done (r, vm1)
      | Undefined \<Rightarrow> Undefined
      | Unmodelled \<Rightarrow> Unmodelled
      | OutOfFuel \<Rightarrow> OutOfFuel)"

text \<open>
  \<open>runClosure(closure, value, args, argCount)\<close>, lines 1293 to 1303. The result of
  \<open>call\<close> is not looked at. After a failed \<open>call\<close> the frame count is 0 and the store to
  \<open>vm.frames[vm.frameCount - 1]\<close> is outside the array. The value stored through \<open>value\<close>
  is returned with the result.
\<close>

definition runClosure ::
  "wctype \<Rightarrow> nat \<Rightarrow> addr \<Rightarrow> Value list \<Rightarrow> VM \<Rightarrow> ((InterpretResult \<times> Value) \<times> VM) outcome" where
  "runClosure L fuel clo args vm =
     (let argCount = int (length args);
          vm1 = foldl (\<lambda>s v. push v s) vm args
      in case call clo argCount vm1 of
           Done (ok, vm2) \<Rightarrow>
             if frameCount vm2 - 1 < 0 then Undefined
             else
               (let top = frameCount vm2 - 1;
                    vm3 = vm2\<lparr>frames := (frames vm2)(top := (frames vm2 top)\<lparr>callClosure := True\<rparr>)\<rparr>
                in case run L fuel vm3 of
                     Done (result, vm4) \<Rightarrow>
                       (let (v, vm5) = pop vm4
                        in Done ((result, v), vm5\<lparr>stackTop := stackTop vm5 - argCount\<rparr>))
                   | Undefined \<Rightarrow> Undefined
                   | Unmodelled \<Rightarrow> Unmodelled
                   | OutOfFuel \<Rightarrow> OutOfFuel)
         | Undefined \<Rightarrow> Undefined
         | Unmodelled \<Rightarrow> Unmodelled
         | OutOfFuel \<Rightarrow> OutOfFuel)"

subsection \<open>The order of the open upvalues\<close>

text \<open>
  The locations of the upvalues of a chain, in the order of the chain; \<open>desc x y\<close> says
  that both are stack slots and the first lies above the second. The invariant of the
  machine: every upvalue in the chain from \<open>vm.openUpvalues\<close> is an allocated object
  that points to a stack slot, and the slots strictly descend along the chain.
\<close>

definition open_slots :: "(addr \<rightharpoonup> Obj) \<Rightarrow> addr list \<Rightarrow> int option list" where
  "open_slots h us = map (slot_of h) us"

definition desc :: "int option \<Rightarrow> int option \<Rightarrow> bool" where
  "desc x y = (case (x, y) of (Some i, Some j) \<Rightarrow> j < i | _ \<Rightarrow> False)"

definition open_upvalues_inv :: "VM \<Rightarrow> bool" where
  "open_upvalues_inv vm =
     (list_all (\<lambda>a. a < nextObj vm) (openUpvalues vm)
      \<and> list_all (\<lambda>x. x \<noteq> None) (open_slots (heap vm) (openUpvalues vm))
      \<and> sorted_wrt desc (open_slots (heap vm) (openUpvalues vm)))"

text \<open>An open upvalue whose slot is at or above a stack address, and one below it.\<close>

definition at_or_above :: "(addr \<rightharpoonup> Obj) \<Rightarrow> int \<Rightarrow> addr \<Rightarrow> bool" where
  "at_or_above h last_p a = (case slot_of h a of Some i \<Rightarrow> last_p \<le> i | None \<Rightarrow> False)"

definition below :: "(addr \<rightharpoonup> Obj) \<Rightarrow> int \<Rightarrow> addr \<Rightarrow> bool" where
  "below h last_p a = (case slot_of h a of Some i \<Rightarrow> i < last_p | None \<Rightarrow> False)"

text \<open>What closing leaves in an upvalue that pointed to a slot of the stack.\<close>

definition closed_copy :: "(int \<Rightarrow> Value) \<Rightarrow> (addr \<rightharpoonup> Obj) \<Rightarrow> addr \<Rightarrow> Obj option" where
  "closed_copy stk h a =
     (case slot_of h a of
        Some i \<Rightarrow> Some (OBJ_UPVALUE \<lparr>location = Own_closed, closed = stk i\<rparr>)
      | None \<Rightarrow> None)"

section \<open>Concrete machine states\<close>

definition frame0 :: CallFrame where
  "frame0 = \<lparr>closure = 0, ip = 0, slots = 0, callClosure = False\<rparr>"

text \<open>
  A state with a function of arity 2 at address 0, its closure at 1, a class without
  methods at 2 and the string of \<open>vm.initString\<close> at 3.
\<close>

definition vm_demo :: VM where
  "vm_demo =
     \<lparr>stack = (\<lambda>i. NIL_VAL)(0 := OBJ_VAL 1, 1 := NUMBER_VAL 7),
      stackTop = 2,
      frames = (\<lambda>i. frame0),
      frameCount = 0,
      openUpvalues = [],
      heap = [0 \<mapsto> OBJ_FUNCTION \<lparr>arity = 2, upvalueCount = 0,
                      chunk = \<lparr>code = [], constants = []\<rparr>\<rparr>,
              1 \<mapsto> OBJ_CLOSURE \<lparr>function = 0, upvalues = []\<rparr>,
              2 \<mapsto> OBJ_CLASS \<lparr>name = 3, methods = Map.empty\<rparr>,
              3 \<mapsto> OBJ_STRING \<lparr>length_s = 3, chars = [21021, 22987, 21270, 0]\<rparr>],
      nextObj = 4,
      strings = Map.empty,
      initString = 3,
      stderr = []\<rparr>"

definition vm_empty :: VM where
  "vm_empty =
     \<lparr>stack = (\<lambda>i. NIL_VAL), stackTop = 0, frames = (\<lambda>i. frame0), frameCount = 0,
      openUpvalues = [], heap = Map.empty, nextObj = 0, strings = Map.empty,
      initString = 0, stderr = []\<rparr>"

text \<open>
  The receiver "aaa" (address 10) and the argument "aa" (address 11) on the stack; the
  method names count (12), length (13), trim (14) and upper (15) in the heap.
\<close>

definition vm_str :: VM where
  "vm_str =
     vm_empty
       \<lparr>stack := (\<lambda>i. NIL_VAL)(0 := OBJ_VAL 10, 1 := OBJ_VAL 11),
        stackTop := 2,
        heap := [10 \<mapsto> OBJ_STRING \<lparr>length_s = 3, chars = [97, 97, 97, 0]\<rparr>,
                 11 \<mapsto> OBJ_STRING \<lparr>length_s = 2, chars = [97, 97, 0]\<rparr>,
                 12 \<mapsto> OBJ_STRING \<lparr>length_s = 2, chars = [35745, 25968, 0]\<rparr>,
                 13 \<mapsto> OBJ_STRING \<lparr>length_s = 2, chars = [38271, 24230, 0]\<rparr>],
        nextObj := 20\<rparr>"

text \<open>
  A list with the items 1 and 2 at address 5, alone on the stack; the method names pop
  (6) and length (13) in the heap.
\<close>

definition vm_lst :: VM where
  "vm_lst =
     vm_empty
       \<lparr>stack := (\<lambda>i. NIL_VAL)(0 := OBJ_VAL 5),
        stackTop := 1,
        heap := [5 \<mapsto> OBJ_LIST [NUMBER_VAL 1, NUMBER_VAL 2],
                 6 \<mapsto> OBJ_STRING \<lparr>length_s = 1, chars = [24377, 0]\<rparr>,
                 13 \<mapsto> OBJ_STRING \<lparr>length_s = 2, chars = [38271, 24230, 0]\<rparr>],
        nextObj := 20\<rparr>"

text \<open>
  The same list with one argument for push (the method name at address 7), with an
  index and an item for insert (name at 8), and with an index for remove (name at 9).
\<close>

definition vm_lst_push :: VM where
  "vm_lst_push =
     vm_empty
       \<lparr>stack := (\<lambda>i. NIL_VAL)(0 := OBJ_VAL 5, 1 := NUMBER_VAL 3),
        stackTop := 2,
        heap := [5 \<mapsto> OBJ_LIST [NUMBER_VAL 1, NUMBER_VAL 2],
                 7 \<mapsto> OBJ_STRING \<lparr>length_s = 1, chars = [25512, 0]\<rparr>],
        nextObj := 20\<rparr>"

definition vm_lst_insert :: VM where
  "vm_lst_insert =
     vm_empty
       \<lparr>stack := (\<lambda>i. NIL_VAL)(0 := OBJ_VAL 5, 1 := NUMBER_VAL 0, 2 := NUMBER_VAL 9),
        stackTop := 3,
        heap := [5 \<mapsto> OBJ_LIST [NUMBER_VAL 1, NUMBER_VAL 2],
                 8 \<mapsto> OBJ_STRING \<lparr>length_s = 1, chars = [25554, 0]\<rparr>],
        nextObj := 20\<rparr>"

definition vm_lst_remove :: VM where
  "vm_lst_remove =
     vm_empty
       \<lparr>stack := (\<lambda>i. NIL_VAL)(0 := OBJ_VAL 5, 1 := NUMBER_VAL 0),
        stackTop := 2,
        heap := [5 \<mapsto> OBJ_LIST [NUMBER_VAL 1, NUMBER_VAL 2],
                 9 \<mapsto> OBJ_STRING \<lparr>length_s = 1, chars = [21024, 0]\<rparr>],
        nextObj := 20\<rparr>"

text \<open>
  A parent class at address 30 with one method and a child class at address 31 with
  another; the stack holds the parent and, on top, the child, as before \<open>OP_INHERIT\<close>.
\<close>

definition vm_inh :: VM where
  "vm_inh =
     vm_empty
       \<lparr>stack := (\<lambda>i. NIL_VAL)(0 := OBJ_VAL 30, 1 := OBJ_VAL 31),
        stackTop := 2,
        heap := [30 \<mapsto> OBJ_CLASS \<lparr>name = 32, methods = [40 \<mapsto> OBJ_VAL 50]\<rparr>,
                 31 \<mapsto> OBJ_CLASS \<lparr>name = 33, methods = [41 \<mapsto> OBJ_VAL 51]\<rparr>],
        nextObj := 60\<rparr>"

definition vm_inh_after :: VM where
  "vm_inh_after =
     vm_inh
       \<lparr>stackTop := 1,
        heap := (heap vm_inh)(31 \<mapsto>
                  OBJ_CLASS \<lparr>name = 33, methods = [41 \<mapsto> OBJ_VAL 51, 40 \<mapsto> OBJ_VAL 50]\<rparr>)\<rparr>"

text \<open>
  The receiver "abc" (address 10) with two number arguments on the stack; the method
  names substring (14), trim (15), upper (16), lower (17) and length (13) in the heap.
\<close>

definition vm_abc :: "Value list \<Rightarrow> VM" where
  "vm_abc args =
     vm_empty
       \<lparr>stack := (\<lambda>i. NIL_VAL)(0 := OBJ_VAL 10, 1 := args ! 0, 2 := args ! 1),
        stackTop := 3,
        heap := [10 \<mapsto> OBJ_STRING \<lparr>length_s = 3, chars = [97, 98, 99, 0]\<rparr>,
                 13 \<mapsto> OBJ_STRING \<lparr>length_s = 2, chars = [38271, 24230, 0]\<rparr>,
                 14 \<mapsto> OBJ_STRING \<lparr>length_s = 2, chars = [23376, 20018, 0]\<rparr>,
                 15 \<mapsto> OBJ_STRING \<lparr>length_s = 2, chars = [20462, 21098, 0]\<rparr>,
                 16 \<mapsto> OBJ_STRING \<lparr>length_s = 2, chars = [22823, 20889, 0]\<rparr>,
                 17 \<mapsto> OBJ_STRING \<lparr>length_s = 2, chars = [23567, 20889, 0]\<rparr>],
        nextObj := 20\<rparr>"

text \<open>The same heap with the receiver "abc" alone on the stack.\<close>

definition vm_abc0 :: VM where
  "vm_abc0 =
     vm_empty
       \<lparr>stack := (\<lambda>i. NIL_VAL)(0 := OBJ_VAL 10),
        stackTop := 1,
        heap := heap (vm_abc []),
        nextObj := 20\<rparr>"

text \<open>What a call leaves on top of the stack when it succeeds.\<close>

definition result_value :: "(bool \<times> VM) outcome \<Rightarrow> Value option" where
  "result_value r = (case r of Done (True, vm) \<Rightarrow> Some (peek vm 0) | _ \<Rightarrow> None)"

definition result_string :: "(bool \<times> VM) outcome \<Rightarrow> ObjString option" where
  "result_string r =
     (case r of Done (True, vm) \<Rightarrow> AS_STRING vm (peek vm 0) | _ \<Rightarrow> None)"
text \<open>
  A state in the middle of a native method, as \<open>filter\<close> leaves it before it calls
  \<open>runClosure\<close>: one frame (the script, closure 2), and on the stack the script's
  closure, a list (5) and the callback closure (1). The callback's function (0) has
  arity 1 and the code \<open>GET_LOCAL 1; GET_LOCAL 2; RETURN\<close>, the code of a body that
  declares one local, initialised with the parameter, and returns it.
\<close>

definition vm_cb :: VM where
  "vm_cb =
     vm_empty
       \<lparr>stack := (\<lambda>i. NIL_VAL)(0 := OBJ_VAL 2, 1 := OBJ_VAL 5, 2 := OBJ_VAL 1),
        stackTop := 3,
        frames := (\<lambda>i. frame0)(0 := \<lparr>closure = 2, ip = 0, slots = 0, callClosure = False\<rparr>),
        frameCount := 1,
        heap := [0 \<mapsto> OBJ_FUNCTION \<lparr>arity = 1, upvalueCount = 0,
                        chunk = \<lparr>code = [5, 1, 5, 2, 44], constants = []\<rparr>\<rparr>,
                 1 \<mapsto> OBJ_CLOSURE \<lparr>function = 0, upvalues = []\<rparr>,
                 2 \<mapsto> OBJ_CLOSURE \<lparr>function = 3, upvalues = []\<rparr>,
                 3 \<mapsto> OBJ_FUNCTION \<lparr>arity = 0, upvalueCount = 0,
                        chunk = \<lparr>code = [], constants = []\<rparr>\<rparr>,
                 5 \<mapsto> OBJ_LIST [NUMBER_VAL 7]],
        nextObj := 20\<rparr>"

text \<open>What a modelled function returns, and the height of the stack it leaves.\<close>

definition returned :: "('a \<times> VM) outcome \<Rightarrow> 'a option" where
  "returned r = (case r of Done (x, vm) \<Rightarrow> Some x | _ \<Rightarrow> None)"

definition stack_height :: "('a \<times> VM) outcome \<Rightarrow> int option" where
  "stack_height r = (case r of Done (x, vm) \<Rightarrow> Some (stackTop vm) | _ \<Rightarrow> None)"

text \<open>
  Two open upvalues: the object at address 40 points to slot 5, the object at 41 to
  slot 2; the chain visits 40 first.
\<close>

definition vm_up :: VM where
  "vm_up =
     vm_empty
       \<lparr>stack := (\<lambda>i. NIL_VAL)(2 := NUMBER_VAL 20, 5 := NUMBER_VAL 50),
        stackTop := 6,
        openUpvalues := [40, 41],
        heap := [40 \<mapsto> OBJ_UPVALUE \<lparr>location = Slot 5, closed = NIL_VAL\<rparr>,
                 41 \<mapsto> OBJ_UPVALUE \<lparr>location = Slot 2, closed = NIL_VAL\<rparr>],
        nextObj := 42\<rparr>"

text \<open>
  The state of \<open>vm_cb\<close> after \<open>runClosure\<close> has pushed the argument and the callback's
  frame, with one open upvalue (address 40) for slot 1 of the stack.
\<close>

definition vm_step :: VM where
  "vm_step =
     vm_cb
       \<lparr>stack := (stack vm_cb)(3 := NUMBER_VAL 7),
        stackTop := 4,
        frames := (frames vm_cb)(1 := \<lparr>closure = 1, ip = 0, slots = 2, callClosure = True\<rparr>),
        frameCount := 2,
        openUpvalues := [40],
        heap := (heap vm_cb)(40 \<mapsto> OBJ_UPVALUE \<lparr>location = Slot 1, closed = NIL_VAL\<rparr>),
        nextObj := 41\<rparr>"

section \<open>Properties\<close>

lemma match_positions_Cons:
  "match_positions nd (c # h) =
     (if prefix nd (c # h) then [0] else []) @ map Suc (match_positions nd h)"
proof -
  have "[0..<length (c # h)] = 0 # map Suc [0..<length h]"
    by (simp add: upt_conv_Cons map_Suc_upt del: upt_Suc)
  then show ?thesis
    by (simp add: match_positions_def filter_map comp_def del: upt_Suc)
qed

lemma count_loop_skip:
  "\<not> prefix nd (c # h) \<Longrightarrow> count_loop nd (c # h) n = count_loop nd h n"
  by (subst count_loop.simps, subst (2) count_loop.simps)
     (auto split: option.splits)

lemma count_loop_hit:
  "prefix nd (c # h) \<Longrightarrow> count_loop nd (c # h) n = count_loop nd h (Suc n)"
  by (subst count_loop.simps) simp

lemma count_loop_counts:
  "nd \<noteq> [] \<Longrightarrow> count_loop nd h n = Some (n + length (match_positions nd h))"
proof (induction h arbitrary: n)
  case Nil
  then show ?case by (subst count_loop.simps) (simp add: match_positions_def)
next
  case (Cons c h)
  show ?case
  proof (cases "prefix nd (c # h)")
    case True
    then show ?thesis
      using Cons by (simp add: count_loop_hit match_positions_Cons)
  next
    case False
    then show ?thesis
      using Cons by (simp add: count_loop_skip match_positions_Cons)
  qed
qed

lemma runtimeError_frames:
  "frameCount (runtimeError msg vm) = 0 \<and> frames (runtimeError msg vm) = frames vm
   \<and> stderr (runtimeError msg vm) = stderr vm @ [msg]"
  by (simp add: runtimeError_def resetStack_def)

text \<open>
  C1. A call of a closure with an argument count other than the declared arity reports
  "expected N arguments, got M" and pushes no frame (the error resets the frame count
  and leaves the frame array as it was); a call of a class without an initialiser with
  a non-zero argument count reports the same with N = 0; a call with the declared arity
  below the frame limit pushes one frame for the closure. \<open>callValue\<close> on a closure is
  this call.
\<close>

theorem call_checks_arity:
  "(heap vm c = Some (OBJ_CLOSURE clo) \<and> heap vm (function clo) = Some (OBJ_FUNCTION fn)
      \<and> m \<noteq> arity fn \<longrightarrow>
      (\<exists>vm'. call c m vm = Done (False, vm')
         \<and> stderr vm' = stderr vm @ [Expected_arguments (arity fn) m]
         \<and> frameCount vm' = 0 \<and> frames vm' = frames vm))
   \<and> (heap vm k = Some (OBJ_CLASS cls) \<and> methods cls (initString vm) = None \<and> m0 \<noteq> 0 \<longrightarrow>
      (\<exists>vm'. callValue (OBJ_VAL k) m0 vm = Done (False, vm')
         \<and> stderr vm' = stderr vm @ [Expected_arguments 0 m0]
         \<and> frameCount vm' = 0 \<and> frames vm' = frames vm))
   \<and> (heap vm c = Some (OBJ_CLOSURE clo) \<and> heap vm (function clo) = Some (OBJ_FUNCTION fn)
      \<and> frameCount vm \<noteq> FRAMES_MAX \<longrightarrow>
      (\<exists>vm'. call c (arity fn) vm = Done (True, vm')
         \<and> frameCount vm' = frameCount vm + 1
         \<and> closure (frames vm' (frameCount vm)) = c
         \<and> ip (frames vm' (frameCount vm)) = 0
         \<and> slots (frames vm' (frameCount vm)) = stackTop vm - arity fn - 1
         \<and> (\<forall>i. i \<noteq> frameCount vm \<longrightarrow> frames vm' i = frames vm i)
         \<and> stack vm' = stack vm \<and> stackTop vm' = stackTop vm \<and> stderr vm' = stderr vm))
   \<and> (heap vm c = Some (OBJ_CLOSURE clo) \<longrightarrow> callValue (OBJ_VAL c) m vm = call c m vm)"
proof (intro conjI impI)
  assume "heap vm c = Some (OBJ_CLOSURE clo) \<and> heap vm (function clo) = Some (OBJ_FUNCTION fn)
      \<and> m \<noteq> arity fn"
  then show "\<exists>vm'. call c m vm = Done (False, vm')
         \<and> stderr vm' = stderr vm @ [Expected_arguments (arity fn) m]
         \<and> frameCount vm' = 0 \<and> frames vm' = frames vm"
    by (simp add: call_def AS_CLOSURE_def AS_FUNCTION_def deref_def runtimeError_frames)
next
  assume "heap vm k = Some (OBJ_CLASS cls) \<and> methods cls (initString vm) = None \<and> m0 \<noteq> 0"
  then show "\<exists>vm'. callValue (OBJ_VAL k) m0 vm = Done (False, vm')
         \<and> stderr vm' = stderr vm @ [Expected_arguments 0 m0]
         \<and> frameCount vm' = 0 \<and> frames vm' = frames vm"
    by (simp add: callValue_def newInstance_def allocate_def runtimeError_frames)
next
  assume "heap vm c = Some (OBJ_CLOSURE clo) \<and> heap vm (function clo) = Some (OBJ_FUNCTION fn)
      \<and> frameCount vm \<noteq> FRAMES_MAX"
  then show "\<exists>vm'. call c (arity fn) vm = Done (True, vm')
         \<and> frameCount vm' = frameCount vm + 1
         \<and> closure (frames vm' (frameCount vm)) = c
         \<and> ip (frames vm' (frameCount vm)) = 0
         \<and> slots (frames vm' (frameCount vm)) = stackTop vm - arity fn - 1
         \<and> (\<forall>i. i \<noteq> frameCount vm \<longrightarrow> frames vm' i = frames vm i)
         \<and> stack vm' = stack vm \<and> stackTop vm' = stackTop vm \<and> stderr vm' = stderr vm"
    by (simp add: call_def AS_CLOSURE_def AS_FUNCTION_def deref_def)
next
  assume "heap vm c = Some (OBJ_CLOSURE clo)"
  then show "callValue (OBJ_VAL c) m vm = call c m vm"
    by (simp add: callValue_def)
qed

theorem call_checks_arity_witness:
  "(\<exists>vm'. call 1 1 vm_demo = Done (False, vm')
         \<and> stderr vm' = [Expected_arguments 2 1]
         \<and> frameCount vm' = 0 \<and> frames vm' = frames vm_demo)
   \<and> (\<exists>vm'. callValue (OBJ_VAL 2) 1 vm_demo = Done (False, vm')
         \<and> stderr vm' = [Expected_arguments 0 1]
         \<and> frameCount vm' = 0 \<and> frames vm' = frames vm_demo)
   \<and> (\<exists>vm'. call 1 2 vm_demo = Done (True, vm')
         \<and> frameCount vm' = 1
         \<and> closure (frames vm' 0) = 1
         \<and> ip (frames vm' 0) = 0
         \<and> slots (frames vm' 0) = - 1
         \<and> (\<forall>i. i \<noteq> 0 \<longrightarrow> frames vm' i = frames vm_demo i)
         \<and> stack vm' = stack vm_demo \<and> stackTop vm' = 2 \<and> stderr vm' = [])
   \<and> callValue (OBJ_VAL 1) 1 vm_demo = call 1 1 vm_demo"
  using call_checks_arity [of vm_demo 1 "\<lparr>function = 0, upvalues = []\<rparr>"
      "\<lparr>arity = 2, upvalueCount = 0, chunk = \<lparr>code = [], constants = []\<rparr>\<rparr>" 1
      2 "\<lparr>name = 3, methods = Map.empty\<rparr>" 1]
  by (simp add: vm_demo_def FRAMES_MAX_def)

lemma string_is_no_instance:
  "AS_STRING vm v = Some s \<Longrightarrow> IS_STRING vm v \<and> \<not> IS_INSTANCE vm v"
  by (auto simp: AS_STRING_def IS_STRING_def IS_INSTANCE_def AS_INSTANCE_def
           split: option.splits Obj.splits)

lemma list_is_no_instance:
  "list_at vm v = Some (a, xs) \<Longrightarrow>
     IS_LIST vm v \<and> \<not> IS_INSTANCE vm v \<and> \<not> IS_STRING vm v"
  by (auto simp: list_at_def AS_STRING_def IS_STRING_def IS_INSTANCE_def AS_INSTANCE_def
        IS_LIST_def AS_LIST_def deref_def
           split: option.splits Obj.splits Value.splits)

lemma invoke_on_string:
  "AS_STRING vm (peek vm argCount) = Some s \<Longrightarrow>
     invoke L nm argCount vm = invokeString L (peek vm argCount) nm argCount vm"
  using string_is_no_instance [of vm "peek vm argCount" s]
  by (simp add: invoke_def Let_def)

lemma invoke_on_list:
  "list_at vm (peek vm argCount) = Some (a, xs) \<Longrightarrow>
     invoke L nm argCount vm = invokeList (peek vm argCount) nm argCount vm"
  using list_is_no_instance [of vm "peek vm argCount" a xs]
  by (simp add: invoke_def Let_def)

lemmas name_defs =
  name_length_def name_indexOf_def name_count_def name_split_def name_replace_def
  name_trim_def name_trimStart_def name_trimEnd_def name_upper_def name_lower_def
  name_substring_def name_push_def name_pop_def name_insert_def name_remove_def
  name_filter_def name_sort_def

lemma replace_call_frame:
  "stackTop (replace_call v argCount vm) = stackTop vm - argCount
   \<and> peek (replace_call v argCount vm) 0 = v
   \<and> (\<forall>i. i < stackTop vm - argCount - 1 \<longrightarrow>
         stack (replace_call v argCount vm) i = stack vm i)
   \<and> heap (replace_call v argCount vm) = heap vm
   \<and> stderr (replace_call v argCount vm) = stderr vm
   \<and> frameCount (replace_call v argCount vm) = frameCount vm"
  by (simp add: replace_call_def push_def peek_def)

text \<open>
  C7. For a non-empty needle, \<open>count\<close> succeeds and leaves on the stack, in place of the
  receiver and the argument, the number of indices of the receiver's text at which the
  needle occurs, so overlapping occurrences are each counted. The stack below the
  receiver and the heap are as before.
\<close>

theorem count_is_number_of_match_positions:
  assumes "AS_STRING vm (OBJ_VAL nm) = Some nms" and "wcs (chars nms) = Some name_count"
    and "AS_STRING vm (peek vm 1) = Some str" and "wcs (chars str) = Some hay"
    and "AS_STRING vm (peek vm 0) = Some search" and "wcs (chars search) = Some nd"
    and "nd \<noteq> []"
  shows "\<exists>vm'. invoke L nm 1 vm = Done (True, vm')
           \<and> stackTop vm' = stackTop vm - 1
           \<and> peek vm' 0 = NUMBER_VAL (of_nat (length (match_positions nd hay)))
           \<and> (\<forall>i. i < stackTop vm - 2 \<longrightarrow> stack vm' i = stack vm i)
           \<and> heap vm' = heap vm \<and> stderr vm' = stderr vm \<and> frameCount vm' = frameCount vm"
proof -
  have c: "string_count str search = Some (length (match_positions nd hay))"
    using count_loop_counts [OF assms(7), of hay 0] assms(4,6)
    by (simp add: string_count_def)
  have "invoke L nm 1 vm = invokeString L (peek vm 1) nm 1 vm"
    using assms(3) by (rule invoke_on_string)
  also have "\<dots> = invokeString_count (peek vm 1) 1 vm"
    using assms(1,2) by (simp add: invokeString_def name_defs)
  also have "\<dots> = Done (True,
             replace_call (NUMBER_VAL (of_nat (length (match_positions nd hay)))) 1 vm)"
    using assms(3,5) c by (simp add: invokeString_count_def IS_STRING_def)
  finally show ?thesis
    using replace_call_frame [of "NUMBER_VAL (of_nat (length (match_positions nd hay)))" 1 vm]
    by simp
qed

theorem count_is_number_of_match_positions_witness:
  "\<exists>vm'. invoke C_locale 12 1 vm_str = Done (True, vm')
      \<and> stackTop vm' = 1 \<and> peek vm' 0 = NUMBER_VAL 2 \<and> heap vm' = heap vm_str"
proof -
  have t: "stackTop vm_str = 2"
    by (simp add: vm_str_def vm_empty_def)
  have m: "match_positions [97, 97] [97, 97, 97 :: wchar] = [0, 1]"
    by (simp add: match_positions_def)
  have "\<exists>vm'. invoke C_locale 12 1 vm_str = Done (True, vm')
           \<and> stackTop vm' = stackTop vm_str - 1
           \<and> peek vm' 0 =
               NUMBER_VAL (of_nat (length (match_positions [97, 97] [97, 97, 97 :: wchar])))
           \<and> (\<forall>i. i < stackTop vm_str - 2 \<longrightarrow> stack vm' i = stack vm_str i)
           \<and> heap vm' = heap vm_str \<and> stderr vm' = stderr vm_str
           \<and> frameCount vm' = frameCount vm_str"
    by (rule count_is_number_of_match_positions [of vm_str 12
          "\<lparr>length_s = 2, chars = [35745, 25968, 0]\<rparr>"
          "\<lparr>length_s = 3, chars = [97, 97, 97, 0]\<rparr>" "[97, 97, 97]"
          "\<lparr>length_s = 2, chars = [97, 97, 0]\<rparr>" "[97, 97]" C_locale])
       (simp_all add: vm_str_def vm_empty_def AS_STRING_def deref_def peek_def wcs_def
          name_count_def)
  then show ?thesis
    unfolding t m by auto
qed

lemma op_get_property_no_instance:
  "\<not> IS_INSTANCE vm (peek vm 0) \<Longrightarrow>
     op_get_property vm =
       Done (Some INTERPRET_RUNTIME_ERROR, runtimeError Only_instances_have_properties vm)"
  by (simp add: op_get_property_def fail_def)

text \<open>
  C9. \<open>OP_GET_PROPERTY\<close> on a receiver that is no instance is the runtime error "only
  instances have properties"; so it is on a string and on a list, while invoking the
  built-in \<open>length\<close> on the same receiver succeeds and leaves the length in place of
  the receiver.
\<close>

theorem builtins_only_through_invoke:
  "(\<not> IS_INSTANCE vm (peek vm 0) \<longrightarrow>
      op_get_property vm =
        Done (Some INTERPRET_RUNTIME_ERROR, runtimeError Only_instances_have_properties vm))
   \<and> (AS_STRING vm (OBJ_VAL nm) = Some nms \<and> wcs (chars nms) = Some name_length
        \<and> AS_STRING vm (peek vm 0) = Some str \<longrightarrow>
      op_get_property vm =
        Done (Some INTERPRET_RUNTIME_ERROR, runtimeError Only_instances_have_properties vm)
      \<and> invoke L nm 0 vm =
          Done (True, replace_call (NUMBER_VAL (of_int (length_s str))) 0 vm))
   \<and> (AS_STRING vm (OBJ_VAL nm) = Some nms \<and> wcs (chars nms) = Some name_length
        \<and> list_at vm (peek vm 0) = Some (a, xs) \<longrightarrow>
      op_get_property vm =
        Done (Some INTERPRET_RUNTIME_ERROR, runtimeError Only_instances_have_properties vm)
      \<and> invoke L nm 0 vm =
          Done (True, replace_call (NUMBER_VAL (of_nat (length xs))) 0 vm))"
proof (intro conjI impI)
  assume "\<not> IS_INSTANCE vm (peek vm 0)"
  then show "op_get_property vm =
        Done (Some INTERPRET_RUNTIME_ERROR, runtimeError Only_instances_have_properties vm)"
    by (rule op_get_property_no_instance)
next
  assume h: "AS_STRING vm (OBJ_VAL nm) = Some nms \<and> wcs (chars nms) = Some name_length
        \<and> AS_STRING vm (peek vm 0) = Some str"
  then show "op_get_property vm =
        Done (Some INTERPRET_RUNTIME_ERROR, runtimeError Only_instances_have_properties vm)"
    using string_is_no_instance [of vm "peek vm 0" str]
    by (simp add: op_get_property_no_instance)
  have "invoke L nm 0 vm = invokeString L (peek vm 0) nm 0 vm"
    using h by (simp add: invoke_on_string)
  also have "\<dots> = invokeString_length (peek vm 0) 0 vm"
    using h by (simp add: invokeString_def)
  finally show "invoke L nm 0 vm =
          Done (True, replace_call (NUMBER_VAL (of_int (length_s str))) 0 vm)"
    using h by (simp add: invokeString_length_def)
next
  assume h: "AS_STRING vm (OBJ_VAL nm) = Some nms \<and> wcs (chars nms) = Some name_length
        \<and> list_at vm (peek vm 0) = Some (a, xs)"
  then show "op_get_property vm =
        Done (Some INTERPRET_RUNTIME_ERROR, runtimeError Only_instances_have_properties vm)"
    using list_is_no_instance [of vm "peek vm 0" a xs]
    by (simp add: op_get_property_no_instance)
  have "invoke L nm 0 vm = invokeList (peek vm 0) nm 0 vm"
    using h by (simp add: invoke_on_list)
  also have "\<dots> = invokeList_length (peek vm 0) 0 vm"
    using h by (simp add: invokeList_def name_defs)
  finally show "invoke L nm 0 vm =
          Done (True, replace_call (NUMBER_VAL (of_nat (length xs))) 0 vm)"
    using h by (simp add: invokeList_length_def)
qed

theorem builtins_only_through_invoke_witness:
  "op_get_property vm_demo =
     Done (Some INTERPRET_RUNTIME_ERROR, runtimeError Only_instances_have_properties vm_demo)
   \<and> (op_get_property vm_str =
        Done (Some INTERPRET_RUNTIME_ERROR, runtimeError Only_instances_have_properties vm_str)
      \<and> invoke C_locale 13 0 vm_str = Done (True, replace_call (NUMBER_VAL 2) 0 vm_str))
   \<and> (op_get_property vm_lst =
        Done (Some INTERPRET_RUNTIME_ERROR, runtimeError Only_instances_have_properties vm_lst)
      \<and> invoke C_locale 13 0 vm_lst = Done (True, replace_call (NUMBER_VAL 2) 0 vm_lst))"
proof -
  have 1: "\<not> IS_INSTANCE vm_demo (peek vm_demo 0)"
    by (simp add: vm_demo_def IS_INSTANCE_def AS_INSTANCE_def deref_def peek_def)
  have 2: "AS_STRING vm_str (OBJ_VAL 13) = Some \<lparr>length_s = 2, chars = [38271, 24230, 0]\<rparr>
      \<and> wcs (chars \<lparr>length_s = 2, chars = [38271, 24230, 0]\<rparr>) = Some name_length
      \<and> AS_STRING vm_str (peek vm_str 0) = Some \<lparr>length_s = 2, chars = [97, 97, 0]\<rparr>"
    by (simp add: vm_str_def vm_empty_def AS_STRING_def deref_def peek_def wcs_def
          name_length_def)
  have 3: "AS_STRING vm_lst (OBJ_VAL 13) = Some \<lparr>length_s = 2, chars = [38271, 24230, 0]\<rparr>
      \<and> wcs (chars \<lparr>length_s = 2, chars = [38271, 24230, 0]\<rparr>) = Some name_length
      \<and> list_at vm_lst (peek vm_lst 0) = Some (5, [NUMBER_VAL 1, NUMBER_VAL 2])"
    by (simp add: vm_lst_def vm_empty_def AS_STRING_def deref_def peek_def wcs_def
          name_length_def list_at_def)
  show ?thesis
    using builtins_only_through_invoke [of vm_demo]
      builtins_only_through_invoke [of vm_str 13 _ _ C_locale, THEN conjunct2, THEN conjunct1,
        rule_format, OF 2]
      builtins_only_through_invoke [of vm_lst 13 _ _ C_locale,
        THEN conjunct2, THEN conjunct2, rule_format, OF 3]
      1
    by simp
qed

lemma replace_call_nil:
  "stackTop (replace_call NIL_VAL argCount vm) = stackTop vm - argCount
   \<and> peek (replace_call NIL_VAL argCount vm) 0 = NIL_VAL
   \<and> (\<forall>i. i < stackTop vm - argCount - 1 \<longrightarrow>
         stack (replace_call NIL_VAL argCount vm) i = stack vm i)
   \<and> heap (replace_call NIL_VAL argCount vm) = heap vm"
  by (simp add: replace_call_def push_def peek_def)

lemma store_list_frame:
  "stackTop (store_list a xs vm) = stackTop vm \<and> stack (store_list a xs vm) = stack vm
   \<and> heap (store_list a xs vm) a = Some (OBJ_LIST xs)"
  by (simp add: store_list_def)

lemma deleteFromList_last: "xs \<noteq> [] \<Longrightarrow> deleteFromList xs (int (length xs) - 1) = butlast xs"
  by (simp add: deleteFromList_def butlast_conv_take nat_diff_distrib')

lemma nil_replaces_call:
  "\<exists>vm'. Done (True, replace_call NIL_VAL argCount (store_list a ys vm)) = Done (True, vm')
      \<and> stackTop vm' = stackTop vm - argCount \<and> peek vm' 0 = NIL_VAL
      \<and> (\<forall>i. i < stackTop vm - argCount - 1 \<longrightarrow> stack vm' i = stack vm i)
      \<and> heap vm' a = Some (OBJ_LIST ys)"
  by (simp add: replace_call_def store_list_def push_def peek_def)

text \<open>
  C10. Every successful call of push, pop, insert or remove on a list replaces the
  receiver and the arguments by nil and leaves the stack below them as it was; pop
  removes the last item of the list and does not return it. The calls do succeed: push
  with one argument, pop on a list that is not empty, insert with an index inside the
  list and an item, remove with an index inside the list; the list object then holds
  the items with the change made.
\<close>

theorem list_mutators_leave_nil:
  assumes "AS_STRING vm (OBJ_VAL nm) = Some nms"
    and "wcs (chars nms) = Some n"
    and "list_at vm (peek vm argCount) = Some (a, xs)"
  shows "(n \<in> {name_push, name_pop, name_insert, name_remove}
          \<and> invoke L nm argCount vm = Done (True, vm') \<longrightarrow>
            stackTop vm' = stackTop vm - argCount \<and> peek vm' 0 = NIL_VAL
            \<and> (\<forall>i. i < stackTop vm - argCount - 1 \<longrightarrow> stack vm' i = stack vm i)
            \<and> (n = name_pop \<longrightarrow> xs \<noteq> [] \<and> heap vm' a = Some (OBJ_LIST (butlast xs))))
     \<and> (n = name_push \<and> argCount = 1 \<longrightarrow>
          (\<exists>vm1. invoke L nm argCount vm = Done (True, vm1)
             \<and> stackTop vm1 = stackTop vm - argCount \<and> peek vm1 0 = NIL_VAL
             \<and> (\<forall>i. i < stackTop vm - argCount - 1 \<longrightarrow> stack vm1 i = stack vm i)
             \<and> heap vm1 a = Some (OBJ_LIST (xs @ [peek vm 0]))))
     \<and> (n = name_pop \<and> argCount = 0 \<and> xs \<noteq> [] \<longrightarrow>
          (\<exists>vm1. invoke L nm argCount vm = Done (True, vm1)
             \<and> stackTop vm1 = stackTop vm - argCount \<and> peek vm1 0 = NIL_VAL
             \<and> (\<forall>i. i < stackTop vm - argCount - 1 \<longrightarrow> stack vm1 i = stack vm i)
             \<and> heap vm1 a = Some (OBJ_LIST (butlast xs))))
     \<and> (n = name_insert \<and> argCount = 2 \<and> peek vm 1 = NUMBER_VAL d
          \<and> double_to_int d = Some i0
          \<and> 0 \<le> (if i0 < 0 then int (length xs) + i0 else i0)
          \<and> (if i0 < 0 then int (length xs) + i0 else i0) < int (length xs) \<longrightarrow>
          (\<exists>vm1. invoke L nm argCount vm = Done (True, vm1)
             \<and> stackTop vm1 = stackTop vm - argCount \<and> peek vm1 0 = NIL_VAL
             \<and> (\<forall>i. i < stackTop vm - argCount - 1 \<longrightarrow> stack vm1 i = stack vm i)
             \<and> heap vm1 a = Some (OBJ_LIST
                  (take (nat (if i0 < 0 then int (length xs) + i0 else i0)) xs
                   @ peek vm 0
                   # drop (nat (if i0 < 0 then int (length xs) + i0 else i0)) xs))))
     \<and> (n = name_remove \<and> argCount = 1 \<and> peek vm 0 = NUMBER_VAL d
          \<and> double_to_int d = Some i0
          \<and> 0 \<le> (if i0 < 0 then int (length xs) + i0 else i0)
          \<and> (if i0 < 0 then int (length xs) + i0 else i0) < int (length xs) \<longrightarrow>
          (\<exists>vm1. invoke L nm argCount vm = Done (True, vm1)
             \<and> stackTop vm1 = stackTop vm - argCount \<and> peek vm1 0 = NIL_VAL
             \<and> (\<forall>i. i < stackTop vm - argCount - 1 \<longrightarrow> stack vm1 i = stack vm i)
             \<and> heap vm1 a = Some (OBJ_LIST
                  (take (nat (if i0 < 0 then int (length xs) + i0 else i0)) xs
                   @ drop (nat (if i0 < 0 then int (length xs) + i0 else i0) + 1) xs))))"
proof (intro conjI impI)
  have il: "invoke L nm argCount vm = invokeList (peek vm argCount) nm argCount vm"
    using assms(3) by (rule invoke_on_list)
  {
    assume h: "n \<in> {name_push, name_pop, name_insert, name_remove}
          \<and> invoke L nm argCount vm = Done (True, vm')"
    then have inv: "invokeList (peek vm argCount) nm argCount vm = Done (True, vm')"
      using il by simp
    consider (push) "n = name_push" | (pop) "n = name_pop"
      | (insert) "n = name_insert" | (remove) "n = name_remove"
      using h by auto
    then have "stackTop vm' = stackTop vm - argCount \<and> peek vm' 0 = NIL_VAL
            \<and> (\<forall>i. i < stackTop vm - argCount - 1 \<longrightarrow> stack vm' i = stack vm i)
            \<and> (n = name_pop \<longrightarrow> xs \<noteq> [] \<and> heap vm' a = Some (OBJ_LIST (butlast xs)))"
    proof cases
      case push
      then have "invokeList_push (peek vm argCount) argCount vm = Done (True, vm')"
        using inv assms(1,2) by (simp add: invokeList_def name_defs)
      then show ?thesis
        using assms(3) push
        by (auto simp: invokeList_push_def Let_def replace_call_nil store_list_frame name_defs
              split: if_splits)
    next
      case pop
      then have "invokeList_pop (peek vm argCount) argCount vm = Done (True, vm')"
        using inv assms(1,2) by (simp add: invokeList_def name_defs)
      then show ?thesis
        using assms(3) pop
        by (auto simp: invokeList_pop_def Let_def replace_call_nil store_list_frame
              isValidListIndex_def deleteFromList_last
              split: if_splits)
    next
      case insert
      then have "invokeList_insert (peek vm argCount) argCount vm = Done (True, vm')"
        using inv assms(1,2) by (simp add: invokeList_def name_defs)
      then show ?thesis
        using assms(3) insert
        by (auto simp: invokeList_insert_def Let_def replace_call_nil store_list_frame name_defs
              split: if_splits option.splits)
    next
      case remove
      then have "invokeList_remove (peek vm argCount) argCount vm = Done (True, vm')"
        using inv assms(1,2) by (simp add: invokeList_def name_defs)
      then show ?thesis
        using assms(3) remove
        by (auto simp: invokeList_remove_def Let_def replace_call_nil store_list_frame name_defs
              split: if_splits option.splits)
    qed
  }
  note every = this
  show "stackTop vm' = stackTop vm - argCount"
    if "n \<in> {name_push, name_pop, name_insert, name_remove}
          \<and> invoke L nm argCount vm = Done (True, vm')"
    using every [OF that] by blast
  show "peek vm' 0 = NIL_VAL"
    if "n \<in> {name_push, name_pop, name_insert, name_remove}
          \<and> invoke L nm argCount vm = Done (True, vm')"
    using every [OF that] by blast
  show "\<forall>i. i < stackTop vm - argCount - 1 \<longrightarrow> stack vm' i = stack vm i"
    if "n \<in> {name_push, name_pop, name_insert, name_remove}
          \<and> invoke L nm argCount vm = Done (True, vm')"
    using every [OF that] by blast
  show "xs \<noteq> []"
    if "n \<in> {name_push, name_pop, name_insert, name_remove}
          \<and> invoke L nm argCount vm = Done (True, vm')" "n = name_pop"
    using every [OF that(1)] that(2) by blast
  show "heap vm' a = Some (OBJ_LIST (butlast xs))"
    if "n \<in> {name_push, name_pop, name_insert, name_remove}
          \<and> invoke L nm argCount vm = Done (True, vm')" "n = name_pop"
    using every [OF that(1)] that(2) by blast
  show "\<exists>vm1. invoke L nm argCount vm = Done (True, vm1)
             \<and> stackTop vm1 = stackTop vm - argCount \<and> peek vm1 0 = NIL_VAL
             \<and> (\<forall>i. i < stackTop vm - argCount - 1 \<longrightarrow> stack vm1 i = stack vm i)
             \<and> heap vm1 a = Some (OBJ_LIST (xs @ [peek vm 0]))"
    if "n = name_push \<and> argCount = 1"
  proof -
    have "invokeList (peek vm argCount) nm argCount vm =
        invokeList_push (peek vm argCount) argCount vm"
      using that assms(1,2) by (simp add: invokeList_def name_defs)
    also have "\<dots> = Done (True, replace_call NIL_VAL argCount
        (store_list a (xs @ [peek vm 0]) vm))"
      using that assms(3) by (simp add: invokeList_push_def insertToList_def)
    finally show ?thesis
      unfolding il using nil_replaces_call [of argCount a "xs @ [peek vm 0]" vm] by simp
  qed
  show "\<exists>vm1. invoke L nm argCount vm = Done (True, vm1)
             \<and> stackTop vm1 = stackTop vm - argCount \<and> peek vm1 0 = NIL_VAL
             \<and> (\<forall>i. i < stackTop vm - argCount - 1 \<longrightarrow> stack vm1 i = stack vm i)
             \<and> heap vm1 a = Some (OBJ_LIST (butlast xs))"
    if "n = name_pop \<and> argCount = 0 \<and> xs \<noteq> []"
  proof -
    have "invokeList (peek vm argCount) nm argCount vm =
        invokeList_pop (peek vm argCount) argCount vm"
      using that assms(1,2) by (simp add: invokeList_def name_defs)
    also have "\<dots> = Done (True, replace_call NIL_VAL argCount
        (store_list a (butlast xs) vm))"
      using that assms(3)
      by (simp add: invokeList_pop_def isValidListIndex_def deleteFromList_last)
    finally show ?thesis
      unfolding il using nil_replaces_call [of argCount a "butlast xs" vm] by simp
  qed
  show "\<exists>vm1. invoke L nm argCount vm = Done (True, vm1)
             \<and> stackTop vm1 = stackTop vm - argCount \<and> peek vm1 0 = NIL_VAL
             \<and> (\<forall>i. i < stackTop vm - argCount - 1 \<longrightarrow> stack vm1 i = stack vm i)
             \<and> heap vm1 a = Some (OBJ_LIST
                  (take (nat (if i0 < 0 then int (length xs) + i0 else i0)) xs
                   @ peek vm 0
                   # drop (nat (if i0 < 0 then int (length xs) + i0 else i0)) xs))"
    if "n = name_insert \<and> argCount = 2 \<and> peek vm 1 = NUMBER_VAL d
          \<and> double_to_int d = Some i0
          \<and> 0 \<le> (if i0 < 0 then int (length xs) + i0 else i0)
          \<and> (if i0 < 0 then int (length xs) + i0 else i0) < int (length xs)"
  proof -
    let ?ys = "take (nat (if i0 < 0 then int (length xs) + i0 else i0)) xs
                   @ peek vm 0
                   # drop (nat (if i0 < 0 then int (length xs) + i0 else i0)) xs"
    have "invokeList (peek vm argCount) nm argCount vm =
        invokeList_insert (peek vm argCount) argCount vm"
      using that assms(1,2) by (simp add: invokeList_def name_defs)
    also have "\<dots> = Done (True, replace_call NIL_VAL argCount (store_list a ?ys vm))"
      using that assms(3)
      by (simp add: invokeList_insert_def isValidListIndex_def insertToList_def IS_NUMBER_def
            AS_INT_def Let_def)
    finally show ?thesis
      unfolding il using nil_replaces_call [of argCount a ?ys vm] by simp
  qed
  show "\<exists>vm1. invoke L nm argCount vm = Done (True, vm1)
             \<and> stackTop vm1 = stackTop vm - argCount \<and> peek vm1 0 = NIL_VAL
             \<and> (\<forall>i. i < stackTop vm - argCount - 1 \<longrightarrow> stack vm1 i = stack vm i)
             \<and> heap vm1 a = Some (OBJ_LIST
                  (take (nat (if i0 < 0 then int (length xs) + i0 else i0)) xs
                   @ drop (nat (if i0 < 0 then int (length xs) + i0 else i0) + 1) xs))"
    if "n = name_remove \<and> argCount = 1 \<and> peek vm 0 = NUMBER_VAL d
          \<and> double_to_int d = Some i0
          \<and> 0 \<le> (if i0 < 0 then int (length xs) + i0 else i0)
          \<and> (if i0 < 0 then int (length xs) + i0 else i0) < int (length xs)"
  proof -
    let ?ys = "take (nat (if i0 < 0 then int (length xs) + i0 else i0)) xs
                   @ drop (nat (if i0 < 0 then int (length xs) + i0 else i0) + 1) xs"
    have "invokeList (peek vm argCount) nm argCount vm =
        invokeList_remove (peek vm argCount) argCount vm"
      using that assms(1,2) by (simp add: invokeList_def name_defs)
    also have "\<dots> = Done (True, replace_call NIL_VAL argCount (store_list a ?ys vm))"
      using that assms(3)
      by (simp add: invokeList_remove_def isValidListIndex_def deleteFromList_def IS_NUMBER_def
            AS_INT_def Let_def)
    finally show ?thesis
      unfolding il using nil_replaces_call [of argCount a ?ys vm] by simp
  qed
qed


lemma vm_lst_name:
  "AS_STRING vm_lst (OBJ_VAL 6) = Some \<lparr>length_s = 1, chars = [24377, 0]\<rparr>"
  by (simp add: vm_lst_def vm_empty_def AS_STRING_def deref_def)

lemma vm_lst_receiver:
  "list_at vm_lst (peek vm_lst 0) = Some (5, [NUMBER_VAL 1, NUMBER_VAL 2])"
  by (simp add: vm_lst_def vm_empty_def list_at_def peek_def)

theorem list_mutators_leave_nil_witness:
  "(\<exists>vm1. invoke C_locale 7 1 vm_lst_push = Done (True, vm1)
      \<and> stackTop vm1 = 1 \<and> peek vm1 0 = NIL_VAL
      \<and> heap vm1 5 = Some (OBJ_LIST [NUMBER_VAL 1, NUMBER_VAL 2, NUMBER_VAL 3]))
   \<and> (\<exists>vm1. invoke C_locale 6 0 vm_lst = Done (True, vm1)
      \<and> stackTop vm1 = 1 \<and> peek vm1 0 = NIL_VAL
      \<and> heap vm1 5 = Some (OBJ_LIST [NUMBER_VAL 1]))
   \<and> (\<exists>vm1. invoke C_locale 8 2 vm_lst_insert = Done (True, vm1)
      \<and> stackTop vm1 = 1 \<and> peek vm1 0 = NIL_VAL
      \<and> heap vm1 5 = Some (OBJ_LIST [NUMBER_VAL 9, NUMBER_VAL 1, NUMBER_VAL 2]))
   \<and> (\<exists>vm1. invoke C_locale 9 1 vm_lst_remove = Done (True, vm1)
      \<and> stackTop vm1 = 1 \<and> peek vm1 0 = NIL_VAL
      \<and> heap vm1 5 = Some (OBJ_LIST [NUMBER_VAL 2]))"
proof (intro conjI)
  have name: "AS_STRING vm_lst_push (OBJ_VAL 7) = Some \<lparr>length_s = 1, chars = [25512, 0]\<rparr>"
    by (simp add: vm_lst_push_def vm_empty_def AS_STRING_def deref_def)
  have w: "wcs (chars \<lparr>length_s = 1, chars = [25512, 0]\<rparr>) = Some name_push"
    by (simp add: wcs_def name_defs)
  have rcv: "list_at vm_lst_push (peek vm_lst_push 1) = Some (5, [NUMBER_VAL 1, NUMBER_VAL 2])"
    by (simp add: vm_lst_push_def vm_empty_def list_at_def peek_def)
  have st: "stackTop vm_lst_push = 2" "peek vm_lst_push 0 = NUMBER_VAL 3"
    by (simp_all add: vm_lst_push_def vm_empty_def peek_def)
  show "\<exists>vm1. invoke C_locale 7 1 vm_lst_push = Done (True, vm1)
      \<and> stackTop vm1 = 1 \<and> peek vm1 0 = NIL_VAL
      \<and> heap vm1 5 = Some (OBJ_LIST [NUMBER_VAL 1, NUMBER_VAL 2, NUMBER_VAL 3])"
    using list_mutators_leave_nil [OF name w rcv, of C_locale, THEN conjunct2, THEN conjunct1] st
    by auto
next
  have w: "wcs (chars \<lparr>length_s = 1, chars = [24377, 0]\<rparr>) = Some name_pop"
    by (simp add: wcs_def name_defs)
  have st: "stackTop vm_lst = 1"
    by (simp add: vm_lst_def vm_empty_def)
  show "\<exists>vm1. invoke C_locale 6 0 vm_lst = Done (True, vm1)
      \<and> stackTop vm1 = 1 \<and> peek vm1 0 = NIL_VAL
      \<and> heap vm1 5 = Some (OBJ_LIST [NUMBER_VAL 1])"
    using list_mutators_leave_nil [OF vm_lst_name w vm_lst_receiver, of C_locale,
        THEN conjunct2, THEN conjunct2, THEN conjunct1] st
    by auto
next
  have name: "AS_STRING vm_lst_insert (OBJ_VAL 8) = Some \<lparr>length_s = 1, chars = [25554, 0]\<rparr>"
    by (simp add: vm_lst_insert_def vm_empty_def AS_STRING_def deref_def)
  have w: "wcs (chars \<lparr>length_s = 1, chars = [25554, 0]\<rparr>) = Some name_insert"
    by (simp add: wcs_def name_defs)
  have rcv: "list_at vm_lst_insert (peek vm_lst_insert 2) =
      Some (5, [NUMBER_VAL 1, NUMBER_VAL 2])"
    by (simp add: vm_lst_insert_def vm_empty_def list_at_def peek_def)
  have st: "stackTop vm_lst_insert = 3" "peek vm_lst_insert 1 = NUMBER_VAL 0"
      "peek vm_lst_insert 0 = NUMBER_VAL 9" "double_to_int 0 = Some 0"
    by (simp_all add: vm_lst_insert_def vm_empty_def peek_def double_to_int_def)
  show "\<exists>vm1. invoke C_locale 8 2 vm_lst_insert = Done (True, vm1)
      \<and> stackTop vm1 = 1 \<and> peek vm1 0 = NIL_VAL
      \<and> heap vm1 5 = Some (OBJ_LIST [NUMBER_VAL 9, NUMBER_VAL 1, NUMBER_VAL 2])"
    using list_mutators_leave_nil [OF name w rcv, of C_locale _ 0 0,
        THEN conjunct2, THEN conjunct2, THEN conjunct2, THEN conjunct1] st
    by auto
next
  have name: "AS_STRING vm_lst_remove (OBJ_VAL 9) = Some \<lparr>length_s = 1, chars = [21024, 0]\<rparr>"
    by (simp add: vm_lst_remove_def vm_empty_def AS_STRING_def deref_def)
  have w: "wcs (chars \<lparr>length_s = 1, chars = [21024, 0]\<rparr>) = Some name_remove"
    by (simp add: wcs_def name_defs)
  have rcv: "list_at vm_lst_remove (peek vm_lst_remove 1) =
      Some (5, [NUMBER_VAL 1, NUMBER_VAL 2])"
    by (simp add: vm_lst_remove_def vm_empty_def list_at_def peek_def)
  have st: "stackTop vm_lst_remove = 2" "peek vm_lst_remove 0 = NUMBER_VAL 0"
      "double_to_int 0 = Some 0"
    by (simp_all add: vm_lst_remove_def vm_empty_def peek_def double_to_int_def)
  show "\<exists>vm1. invoke C_locale 9 1 vm_lst_remove = Done (True, vm1)
      \<and> stackTop vm1 = 1 \<and> peek vm1 0 = NIL_VAL
      \<and> heap vm1 5 = Some (OBJ_LIST [NUMBER_VAL 2])"
    using list_mutators_leave_nil [OF name w rcv, of C_locale _ 0 0,
        THEN conjunct2, THEN conjunct2, THEN conjunct2, THEN conjunct2] st
    by auto
qed

text \<open>
  C2, as stated, fails: after \<open>OP_INHERIT\<close> on the stack "parent, child" the parent
  (address 30) is still on the stack, now on top; the value popped is the child.
\<close>

theorem inherit_pops_parent_counterexample:
  "peek vm_inh 1 = OBJ_VAL 30 \<and> peek vm_inh 0 = OBJ_VAL 31
   \<and> op_inherit vm_inh = Done (None, vm_inh_after)
   \<and> stackTop vm_inh_after = 1 \<and> peek vm_inh_after 0 = OBJ_VAL 30"
  by (simp add: op_inherit_def vm_inh_def vm_inh_after_def vm_empty_def peek_def pop_def
        AS_CLASS_def deref_def tableAddAll_def)

text \<open>
  C2, amended. With a class below the top of the stack and a class on top,
  \<open>OP_INHERIT\<close> stores every entry of the parent's method table in the child's method
  table (entries of the child under other keys stay) and then pops the child, the top of
  the stack; the parent stays on the stack and is the new top.
\<close>

theorem inherit_copies_methods_pops_child:
  assumes "AS_CLASS vm (peek vm 1) = Some super"
    and "peek vm 0 = OBJ_VAL sub"
    and "heap vm sub = Some (OBJ_CLASS subclass)"
  shows "\<exists>vm' subclass'.
           op_inherit vm = Done (None, vm')
           \<and> heap vm' sub = Some (OBJ_CLASS subclass')
           \<and> name subclass' = name subclass
           \<and> (\<forall>k v. methods super k = Some v \<longrightarrow> methods subclass' k = Some v)
           \<and> (\<forall>k. methods super k = None \<longrightarrow> methods subclass' k = methods subclass k)
           \<and> (\<forall>a. a \<noteq> sub \<longrightarrow> heap vm' a = heap vm a)
           \<and> stack vm' = stack vm
           \<and> stackTop vm' = stackTop vm - 1
           \<and> peek vm' 0 = peek vm 1"
  using assms
  by (simp add: op_inherit_def pop_def peek_def tableAddAll_def map_add_def
        split: option.splits)

theorem inherit_copies_methods_pops_child_witness:
  "\<exists>vm' subclass'.
     op_inherit vm_inh = Done (None, vm')
     \<and> heap vm' 31 = Some (OBJ_CLASS subclass')
     \<and> name subclass' = 33
     \<and> (\<forall>k v. [40 \<mapsto> OBJ_VAL 50] k = Some v \<longrightarrow> methods subclass' k = Some v)
     \<and> (\<forall>k. [40 \<mapsto> OBJ_VAL 50] k = None \<longrightarrow> methods subclass' k = [41 \<mapsto> OBJ_VAL 51] k)
     \<and> (\<forall>a. a \<noteq> 31 \<longrightarrow> heap vm' a = heap vm_inh a)
     \<and> stack vm' = stack vm_inh
     \<and> stackTop vm' = 1
     \<and> peek vm' 0 = OBJ_VAL 30"
proof -
  have 1: "AS_CLASS vm_inh (peek vm_inh 1) = Some \<lparr>name = 32, methods = [40 \<mapsto> OBJ_VAL 50]\<rparr>"
    by (simp add: vm_inh_def vm_empty_def AS_CLASS_def deref_def peek_def)
  have 2: "peek vm_inh 0 = OBJ_VAL 31"
    by (simp add: vm_inh_def vm_empty_def peek_def)
  have 3: "heap vm_inh 31 = Some (OBJ_CLASS \<lparr>name = 33, methods = [41 \<mapsto> OBJ_VAL 51]\<rparr>)"
    by (simp add: vm_inh_def vm_empty_def)
  have 4: "stackTop vm_inh = 2" "peek vm_inh 1 = OBJ_VAL 30"
    by (simp_all add: vm_inh_def vm_empty_def peek_def)
  show ?thesis
    using inherit_copies_methods_pops_child [OF 1 2 3] 4 by simp
qed






lemma vm_abc0_receiver:
  "AS_STRING vm_abc0 (peek vm_abc0 0) = Some \<lparr>length_s = 3, chars = [97, 98, 99, 0]\<rparr>"
  by (simp add: vm_abc0_def vm_abc_def vm_empty_def AS_STRING_def deref_def peek_def)

lemma vm_abc0_names:
  "AS_STRING vm_abc0 (OBJ_VAL 15) = Some \<lparr>length_s = 2, chars = [20462, 21098, 0]\<rparr>"
  "AS_STRING vm_abc0 (OBJ_VAL 16) = Some \<lparr>length_s = 2, chars = [22823, 20889, 0]\<rparr>"
  "AS_STRING vm_abc0 (OBJ_VAL 17) = Some \<lparr>length_s = 2, chars = [23567, 20889, 0]\<rparr>"
  by (simp_all add: vm_abc0_def vm_abc_def vm_empty_def AS_STRING_def deref_def)

lemma result_string_of_string_result:
  "strings vm (length_s s, take (nat (length_s s)) (chars s)) = None \<Longrightarrow>
     result_string (string_result (Some s) argCount vm) = Some s"
  by (simp add: result_string_def string_result_def intern_def allocate_def replace_call_def
        push_def peek_def AS_STRING_def deref_def)

lemma vm_abc0_strings: "strings vm_abc0 k = None"
  by (simp add: vm_abc0_def vm_empty_def)

lemma trim_abc:
  "string_trim (containsChar C_locale None) [97, 98, 99, 0] =
     Some \<lparr>length_s = 2, chars = [97, 98, 0]\<rparr>"
  by (simp add: string_trim_def trim_tail_def C_locale_def containsChar_def wcslen_def
        wcs_def scan_end.simps size_t_def copyString_def)

text \<open>
  C6 fails on the code: \<open>"abc".trim()\<close>, a receiver without any whitespace, returns
  \<open>"ab"\<close>.
\<close>

theorem trim_drops_last_character:
  "result_string (invoke C_locale 15 0 vm_abc0) = Some \<lparr>length_s = 2, chars = [97, 98, 0]\<rparr>"
proof -
  have "invoke C_locale 15 0 vm_abc0 = invokeString C_locale (peek vm_abc0 0) 15 0 vm_abc0"
    using vm_abc0_receiver by (rule invoke_on_string)
  also have "\<dots> = invokeString_trimming string_trim C_locale (peek vm_abc0 0) 0 vm_abc0"
    by (simp add: invokeString_def vm_abc0_names wcs_def name_defs)
  also have "\<dots> = string_result (Some \<lparr>length_s = 2, chars = [97, 98, 0]\<rparr>) 0 vm_abc0"
    by (simp add: invokeString_trimming_def vm_abc0_receiver trim_abc)
  finally show ?thesis
    by (simp add: result_string_of_string_result vm_abc0_strings)
qed

lemma upper_abc:
  "string_case (towupper C_locale) \<lparr>length_s = 3, chars = [97, 98, 99, 0]\<rparr> =
     Some \<lparr>length_s = 4, chars = [65, 66, 67, 0]\<rparr>"
  by (simp add: string_case_def C_locale_def wcs_def takeString_def)

lemma lower_abc:
  "string_case (towlower C_locale) \<lparr>length_s = 3, chars = [97, 98, 99, 0]\<rparr> =
     Some \<lparr>length_s = 4, chars = [97, 98, 99, 0]\<rparr>"
  by (simp add: string_case_def C_locale_def wcs_def takeString_def)

lemma invoke_upper_abc:
  "invoke C_locale 16 0 vm_abc0 =
     string_result (Some \<lparr>length_s = 4, chars = [65, 66, 67, 0]\<rparr>) 0 vm_abc0"
proof -
  have "invoke C_locale 16 0 vm_abc0 = invokeString C_locale (peek vm_abc0 0) 16 0 vm_abc0"
    using vm_abc0_receiver by (rule invoke_on_string)
  also have "\<dots> = invokeString_case (towupper C_locale) (peek vm_abc0 0) 0 vm_abc0"
    by (simp add: invokeString_def vm_abc0_names wcs_def name_defs)
  also have "\<dots> = string_result (Some \<lparr>length_s = 4, chars = [65, 66, 67, 0]\<rparr>) 0 vm_abc0"
    by (simp add: invokeString_case_def vm_abc0_receiver upper_abc)
  finally show ?thesis .
qed

lemma invoke_lower_abc:
  "invoke C_locale 17 0 vm_abc0 =
     string_result (Some \<lparr>length_s = 4, chars = [97, 98, 99, 0]\<rparr>) 0 vm_abc0"
proof -
  have "invoke C_locale 17 0 vm_abc0 = invokeString C_locale (peek vm_abc0 0) 17 0 vm_abc0"
    using vm_abc0_receiver by (rule invoke_on_string)
  also have "\<dots> = invokeString_case (towlower C_locale) (peek vm_abc0 0) 0 vm_abc0"
    by (simp add: invokeString_def vm_abc0_names wcs_def name_defs)
  also have "\<dots> = string_result (Some \<lparr>length_s = 4, chars = [97, 98, 99, 0]\<rparr>) 0 vm_abc0"
    by (simp add: invokeString_case_def vm_abc0_receiver lower_abc)
  finally show ?thesis .
qed

text \<open>
  C8 fails on the code: \<open>"abc".upper()\<close> and \<open>"abc".lower()\<close> return strings whose
  length field is 4, and the built-in \<open>length\<close> of the result of \<open>upper\<close> returns 4.
\<close>

theorem upper_lower_length_off_by_one:
  "result_string (invoke C_locale 16 0 vm_abc0) =
     Some \<lparr>length_s = 4, chars = [65, 66, 67, 0]\<rparr>
   \<and> result_string (invoke C_locale 17 0 vm_abc0) =
     Some \<lparr>length_s = 4, chars = [97, 98, 99, 0]\<rparr>
   \<and> (case invoke C_locale 16 0 vm_abc0 of
         Done (ok, vm1) \<Rightarrow> result_value (invoke C_locale 13 0 vm1)
       | _ \<Rightarrow> None) = Some (NUMBER_VAL 4)"
proof -
  let ?up = "\<lparr>length_s = 4, chars = [65, 66, 67, 0::wchar]\<rparr>"
  obtain vm1 where vm1: "string_result (Some ?up) 0 vm_abc0 = Done (True, vm1)"
    and top: "AS_STRING vm1 (peek vm1 0) = Some ?up"
    and nm: "AS_STRING vm1 (OBJ_VAL 13) = Some \<lparr>length_s = 2, chars = [38271, 24230, 0]\<rparr>"
    by (simp add: string_result_def intern_def allocate_def replace_call_def push_def
          peek_def AS_STRING_def deref_def vm_abc0_def vm_abc_def vm_empty_def)
  have "invoke C_locale 13 0 vm1 = invokeString C_locale (peek vm1 0) 13 0 vm1"
    using top by (rule invoke_on_string)
  also have "\<dots> = invokeString_length (peek vm1 0) 0 vm1"
    by (simp add: invokeString_def nm wcs_def name_defs)
  also have "\<dots> = Done (True, replace_call (NUMBER_VAL 4) 0 vm1)"
    by (simp add: invokeString_length_def top)
  finally have "result_value (invoke C_locale 13 0 vm1) = Some (NUMBER_VAL 4)"
    by (simp add: result_value_def replace_call_def push_def peek_def)
  then have c: "(case invoke C_locale 16 0 vm_abc0 of
         Done (ok, vm1) \<Rightarrow> result_value (invoke C_locale 13 0 vm1)
       | _ \<Rightarrow> None) = Some (NUMBER_VAL 4)"
    by (simp add: invoke_upper_abc vm1)
  have a: "result_string (invoke C_locale 16 0 vm_abc0) = Some ?up"
    by (simp add: invoke_upper_abc result_string_of_string_result vm_abc0_strings)
  have b: "result_string (invoke C_locale 17 0 vm_abc0) =
      Some \<lparr>length_s = 4, chars = [97, 98, 99, 0]\<rparr>"
    by (simp add: invoke_lower_abc result_string_of_string_result vm_abc0_strings)
  show ?thesis
    using a b c by blast
qed
text \<open>
  C4 fails on the code: the callback returns its value, but the local it left on the
  stack is still there when \<open>runClosure\<close> returns; the stack is one slot higher than
  before the call.
\<close>

theorem runClosure_leaves_callee_locals:
  "stackTop vm_cb = 3
   \<and> returned (runClosure C_locale 3 1 [NUMBER_VAL 7] vm_cb) =
       Some (INTERPRET_OK, NUMBER_VAL 7)
   \<and> stack_height (runClosure C_locale 3 1 [NUMBER_VAL 7] vm_cb) = Some 4"
  by (simp add: runClosure_def call_def vm_cb_def vm_empty_def push_def pop_def peek_def
        AS_CLOSURE_def AS_FUNCTION_def deref_def FRAMES_MAX_def numeral_3_eq_3
        step_def READ_BYTE_def cur_chunk_def cur_frame_def set_cur_frame_def
        OpCode_defs op_local_def op_return_def closeUpvalues_def
        returned_def stack_height_def Let_def)

lemma desc_simps [simp]:
  "desc (Some i) (Some j) = (j < i)" "desc None y = False" "desc x None = False"
  by (auto simp: desc_def split: option.splits)

lemma open_slots_simps [simp]:
  "open_slots h [] = []" "open_slots h (u # us) = slot_of h u # open_slots h us"
  "open_slots h (us @ vs) = open_slots h us @ open_slots h vs"
  by (simp_all add: open_slots_def)

lemma open_slots_cong:
  "(\<And>a. a \<in> set us \<Longrightarrow> slot_of h' a = slot_of h a) \<Longrightarrow> open_slots h' us = open_slots h us"
  by (simp add: open_slots_def)

lemma set_open_slots: "set (open_slots h us) = slot_of h ` set us"
  by (simp add: open_slots_def)

lemma slot_of_upd_other: "a \<noteq> u \<Longrightarrow> slot_of (h(u \<mapsto> obj)) a = slot_of h a"
  by (simp add: slot_of_def)

lemma slot_of_upd_open:
  "slot_of (h(u \<mapsto> OBJ_UPVALUE \<lparr>location = Slot i, closed = v\<rparr>)) u = Some i"
  by (simp add: slot_of_def)

lemma sorted_head_not_in_tail:
  assumes "sorted_wrt desc (open_slots h (u # us))"
  shows "u \<notin> set us"
proof
  assume "u \<in> set us"
  then have "desc (slot_of h u) (slot_of h u)"
    using assms by (auto simp: set_open_slots)
  then show False
    by (cases "slot_of h u") auto
qed

lemma sorted_tail_below_head:
  assumes "sorted_wrt desc (open_slots h (u # us))" and "slot_of h u = Some i"
    and "a \<in> set us"
  shows "\<exists>j. slot_of h a = Some j \<and> j < i"
proof -
  have "desc (Some i) (slot_of h a)"
    using assms by (auto simp: set_open_slots)
  then show ?thesis
    by (cases "slot_of h a") auto
qed

lemma scan_open_splits:
  assumes "list_all (\<lambda>x. x \<noteq> None) (open_slots h us)"
    and "sorted_wrt desc (open_slots h us)"
  shows "\<exists>passed rest.
           scan_open h local us = Some (passed, rest) \<and> us = passed @ rest
           \<and> (\<forall>a\<in>set passed. \<exists>i. slot_of h a = Some i \<and> local < i)
           \<and> (\<forall>a\<in>set rest. \<exists>i. slot_of h a = Some i \<and> i \<le> local)"
  using assms
proof (induction us)
  case Nil
  then show ?case by simp
next
  case (Cons u us)
  then obtain i where i: "slot_of h u = Some i"
    by auto
  show ?case
  proof (cases "i > local")
    case True
    from Cons obtain passed rest where
      "scan_open h local us = Some (passed, rest)" "us = passed @ rest"
      "\<forall>a\<in>set passed. \<exists>i. slot_of h a = Some i \<and> local < i"
      "\<forall>a\<in>set rest. \<exists>i. slot_of h a = Some i \<and> i \<le> local"
      by auto
    then show ?thesis
      using i True by auto
  next
    case False
    have "\<forall>a\<in>set us. \<exists>j. slot_of h a = Some j \<and> j \<le> local"
    proof
      fix a assume "a \<in> set us"
      then obtain j where "slot_of h a = Some j" "j < i"
        using sorted_tail_below_head [OF Cons.prems(2) i] by blast
      then show "\<exists>j. slot_of h a = Some j \<and> j \<le> local"
        using False by auto
    qed
    then show ?thesis
      using i False by auto
  qed
qed

lemma close_loop_closes:
  assumes "list_all (\<lambda>x. x \<noteq> None) (open_slots h us)"
    and "sorted_wrt desc (open_slots h us)"
  shows "\<exists>h'. close_loop last_p stk h us = Some (h', filter (below h last_p) us)
           \<and> (\<forall>a. a \<in> set us \<and> at_or_above h last_p a \<longrightarrow> h' a = closed_copy stk h a)
           \<and> (\<forall>a. \<not> (a \<in> set us \<and> at_or_above h last_p a) \<longrightarrow> h' a = h a)"
  using assms
proof (induction us arbitrary: h)
  case Nil
  then show ?case by simp
next
  case (Cons u us)
  then obtain i where i: "slot_of h u = Some i"
    by auto
  have fresh: "u \<notin> set us"
    using Cons.prems(2) by (rule sorted_head_not_in_tail)
  show ?case
  proof (cases "last_p \<le> i")
    case True
    let ?h1 = "h(u \<mapsto> OBJ_UPVALUE \<lparr>location = Own_closed, closed = stk i\<rparr>)"
    have same: "slot_of ?h1 a = slot_of h a" if "a \<in> set us" for a
    proof -
      have "a \<noteq> u" using that fresh by auto
      then show ?thesis by (rule slot_of_upd_other)
    qed
    then have slots: "open_slots ?h1 us = open_slots h us"
      by (rule open_slots_cong)
    have "list_all (\<lambda>x. x \<noteq> None) (open_slots ?h1 us)" "sorted_wrt desc (open_slots ?h1 us)"
      using Cons.prems by (simp_all add: slots)
    from Cons.IH [OF this] obtain h' where h':
      "close_loop last_p stk ?h1 us = Some (h', filter (below ?h1 last_p) us)"
      "\<forall>a. a \<in> set us \<and> at_or_above ?h1 last_p a \<longrightarrow> h' a = closed_copy stk ?h1 a"
      "\<forall>a. \<not> (a \<in> set us \<and> at_or_above ?h1 last_p a) \<longrightarrow> h' a = ?h1 a"
      by blast
    have f: "filter (below ?h1 last_p) us = filter (below h last_p) us"
      using same by (intro filter_cong) (auto simp: below_def)
    have "close_loop last_p stk h (u # us) = Some (h', filter (below h last_p) (u # us))"
      using i True h'(1) f by (simp add: below_def)
    moreover have "\<forall>a. a \<in> set (u # us) \<and> at_or_above h last_p a \<longrightarrow> h' a = closed_copy stk h a"
    proof (intro allI impI)
      fix a assume a: "a \<in> set (u # us) \<and> at_or_above h last_p a"
      show "h' a = closed_copy stk h a"
      proof (cases "a = u")
        case True
        then have "h' a = ?h1 a"
          using h'(3) fresh by auto
        then show ?thesis
          using True i by (simp add: closed_copy_def)
      next
        case False
        then have "a \<in> set us" using a by auto
        then show ?thesis
          using h'(2) a same [of a] by (auto simp: at_or_above_def closed_copy_def)
      qed
    qed
    moreover have "\<forall>a. \<not> (a \<in> set (u # us) \<and> at_or_above h last_p a) \<longrightarrow> h' a = h a"
    proof (intro allI impI)
      fix a assume a: "\<not> (a \<in> set (u # us) \<and> at_or_above h last_p a)"
      have "a \<noteq> u"
        using a i True by (auto simp: at_or_above_def)
      moreover have "\<not> (a \<in> set us \<and> at_or_above ?h1 last_p a)"
        using a same [of a] by (auto simp: at_or_above_def)
      ultimately show "h' a = h a"
        using h'(3) by auto
    qed
    ultimately show ?thesis by blast
  next
    case False
    have all_below: "\<forall>a\<in>set (u # us). below h last_p a"
    proof
      fix a assume "a \<in> set (u # us)"
      then consider "a = u" | "a \<in> set us" by auto
      then show "below h last_p a"
      proof cases
        case 1
        then show ?thesis using i False by (simp add: below_def)
      next
        case 2
        then obtain j where "slot_of h a = Some j" "j < i"
          using sorted_tail_below_head [OF Cons.prems(2) i] by blast
        then show ?thesis using False by (simp add: below_def)
      qed
    qed
    then have "filter (below h last_p) (u # us) = u # us"
      by (simp only: filter_id_conv)
    moreover have "\<forall>a\<in>set (u # us). \<not> at_or_above h last_p a"
      using all_below by (auto simp: below_def at_or_above_def split: option.splits)
    ultimately show ?thesis
      using i False by auto
  qed
qed

lemma closeUpvalues_keeps_order:
  assumes "open_upvalues_inv vm"
  shows "\<exists>vm'. closeUpvalues last_p vm = Done vm' \<and> open_upvalues_inv vm'
           \<and> openUpvalues vm' = filter (below (heap vm) last_p) (openUpvalues vm)
           \<and> (\<forall>a. a \<in> set (openUpvalues vm) \<and> at_or_above (heap vm) last_p a \<longrightarrow>
                  heap vm' a = closed_copy (stack vm) (heap vm) a)
           \<and> (\<forall>a. \<not> (a \<in> set (openUpvalues vm) \<and> at_or_above (heap vm) last_p a) \<longrightarrow>
                  heap vm' a = heap vm a)
           \<and> stack vm' = stack vm \<and> stackTop vm' = stackTop vm"
proof -
  let ?us = "openUpvalues vm" and ?h = "heap vm"
  have a1: "list_all (\<lambda>x. x \<noteq> None) (open_slots ?h ?us)"
    and a2: "sorted_wrt desc (open_slots ?h ?us)"
    and a3: "list_all (\<lambda>a. a < nextObj vm) ?us"
    using assms by (simp_all add: open_upvalues_inv_def)
  from close_loop_closes [OF a1 a2, of last_p "stack vm"] obtain h' where h':
    "close_loop last_p (stack vm) ?h ?us = Some (h', filter (below ?h last_p) ?us)"
    "\<forall>a. a \<in> set ?us \<and> at_or_above ?h last_p a \<longrightarrow> h' a = closed_copy (stack vm) ?h a"
    "\<forall>a. \<not> (a \<in> set ?us \<and> at_or_above ?h last_p a) \<longrightarrow> h' a = ?h a"
    by blast
  let ?vm' = "vm\<lparr>heap := h', openUpvalues := filter (below ?h last_p) ?us\<rparr>"
  have r: "closeUpvalues last_p vm = Done ?vm'"
    using h'(1) by (simp add: closeUpvalues_def)
  have same: "slot_of h' a = slot_of ?h a" if "a \<in> set (filter (below ?h last_p) ?us)" for a
  proof -
    have "\<not> at_or_above ?h last_p a"
      using that by (auto simp: below_def at_or_above_def split: option.splits)
    then have "h' a = ?h a" using h'(3) by blast
    then show ?thesis by (simp add: slot_of_def)
  qed
  have slots: "open_slots h' (filter (below ?h last_p) ?us) =
      open_slots ?h (filter (below ?h last_p) ?us)"
    using same by (rule open_slots_cong)
  have s1: "sorted_wrt desc (open_slots ?h (filter (below ?h last_p) ?us))"
    using a2 by (simp add: open_slots_def sorted_wrt_map sorted_wrt_filter)
  have s2: "list_all (\<lambda>x. x \<noteq> None) (open_slots ?h (filter (below ?h last_p) ?us))"
    using a1 by (auto simp: open_slots_def list_all_iff)
  have s3: "list_all (\<lambda>a. a < nextObj vm) (filter (below ?h last_p) ?us)"
    using a3 by (auto simp: list_all_iff)
  have "open_upvalues_inv ?vm'"
    using s1 s2 s3 by (simp add: open_upvalues_inv_def slots)
  then show ?thesis
    using r h'(2,3) by auto
qed

lemma captureUpvalue_keeps_order:
  assumes "open_upvalues_inv vm"
  shows "\<exists>u vm'. captureUpvalue local vm = Done (u, vm') \<and> open_upvalues_inv vm'
           \<and> slot_of (heap vm') u = Some local \<and> u \<in> set (openUpvalues vm')
           \<and> (if Some local \<in> set (open_slots (heap vm) (openUpvalues vm))
               then vm' = vm
               else u \<notin> set (openUpvalues vm)
                    \<and> filter (\<lambda>a. a \<noteq> u) (openUpvalues vm') = openUpvalues vm
                    \<and> (\<forall>a. a \<noteq> u \<longrightarrow> heap vm' a = heap vm a)
                    \<and> stack vm' = stack vm \<and> stackTop vm' = stackTop vm)"
proof -
  let ?us = "openUpvalues vm" and ?h = "heap vm"
  have a1: "list_all (\<lambda>x. x \<noteq> None) (open_slots ?h ?us)"
    and a2: "sorted_wrt desc (open_slots ?h ?us)"
    and a3: "list_all (\<lambda>a. a < nextObj vm) ?us"
    using assms by (simp_all add: open_upvalues_inv_def)
  from scan_open_splits [OF a1 a2, of local] obtain passed rest where sc:
    "scan_open ?h local ?us = Some (passed, rest)" and us: "?us = passed @ rest"
    and above: "\<forall>a\<in>set passed. \<exists>i. slot_of ?h a = Some i \<and> local < i"
    and notabove: "\<forall>a\<in>set rest. \<exists>i. slot_of ?h a = Some i \<and> i \<le> local"
    by blast
  show ?thesis
  proof (cases "rest \<noteq> [] \<and> slot_of ?h (hd rest) = Some local")
    case True
    then have "captureUpvalue local vm = Done (hd rest, vm)"
      using sc by (simp add: captureUpvalue_def)
    moreover have "hd rest \<in> set ?us"
      using True us by (cases rest) auto
    moreover have "Some local \<in> set (open_slots ?h ?us)"
      using True \<open>hd rest \<in> set ?us\<close> by (force simp: set_open_slots)
    ultimately show ?thesis
      using assms True by auto
  next
    case False
    let ?u = "nextObj vm"
    let ?h1 = "?h(?u \<mapsto> OBJ_UPVALUE \<lparr>location = Slot local, closed = NIL_VAL\<rparr>)"
    let ?vm' = "vm\<lparr>heap := ?h1, nextObj := ?u + 1, openUpvalues := passed @ ?u # rest\<rparr>"
    have r: "captureUpvalue local vm = Done (?u, ?vm')"
      using sc False by (auto simp: captureUpvalue_def newUpvalue_def allocate_def)
    have fresh: "?u \<notin> set ?us"
      using a3 by (auto simp: list_all_iff)
    have sorted_rest: "sorted_wrt desc (open_slots ?h rest)"
      using a2 us by (simp add: sorted_wrt_append)
    have strictly: "\<exists>i. slot_of ?h a = Some i \<and> i < local" if "a \<in> set rest" for a
    proof (cases rest)
      case Nil
      then show ?thesis using that by simp
    next
      case (Cons r rs)
      obtain i where i: "slot_of ?h r = Some i" "i \<le> local"
        using notabove Cons by auto
      have "i \<noteq> local" using False Cons i by auto
      then have il: "i < local" using i by simp
      show ?thesis
      proof (cases "a = r")
        case True
        then show ?thesis using i il by simp
      next
        case False
        then have "a \<in> set rs" using that Cons by simp
        then obtain j where "slot_of ?h a = Some j" "j < i"
          using sorted_tail_below_head [of ?h r rs i a] sorted_rest Cons i by auto
        then show ?thesis using il by auto
      qed
    qed
    have notin: "Some local \<notin> set (open_slots ?h ?us)"
    proof
      assume "Some local \<in> set (open_slots ?h ?us)"
      then obtain a where "a \<in> set ?us" "slot_of ?h a = Some local"
        by (auto simp: set_open_slots)
      then show False
        using above strictly us by (metis Un_iff less_irrefl option.inject set_append)
    qed
    have same: "slot_of ?h1 a = slot_of ?h a" if "a \<in> set ?us" for a
    proof -
      have "a \<noteq> ?u" using that fresh by auto
      then show ?thesis by (rule slot_of_upd_other)
    qed
    have sp: "open_slots ?h1 passed = open_slots ?h passed"
      and sr: "open_slots ?h1 rest = open_slots ?h rest"
      using same us by (auto intro: open_slots_cong)
    have slots': "open_slots ?h1 (passed @ ?u # rest) =
        open_slots ?h passed @ Some local # open_slots ?h rest"
      by (simp add: sp sr slot_of_upd_open)
    have cross1: "\<forall>x\<in>set (open_slots ?h passed). desc x (Some local)"
      using above by (auto simp: set_open_slots)
    have cross2: "\<forall>y\<in>set (open_slots ?h rest). desc (Some local) y"
    proof
      fix y assume "y \<in> set (open_slots ?h rest)"
      then obtain a where "a \<in> set rest" "y = slot_of ?h a"
        by (auto simp: set_open_slots)
      then show "desc (Some local) y"
        using strictly [of a] by auto
    qed
    have "sorted_wrt desc (open_slots ?h passed @ Some local # open_slots ?h rest)"
      using a2 us cross1 cross2 by (auto simp: sorted_wrt_append)
    then have A: "sorted_wrt desc (open_slots ?h1 (passed @ ?u # rest))"
      by (simp only: slots')
    have "list_all (\<lambda>x. x \<noteq> None) (open_slots ?h passed @ Some local # open_slots ?h rest)"
      using a1 us by simp
    then have B: "list_all (\<lambda>x. x \<noteq> None) (open_slots ?h1 (passed @ ?u # rest))"
      by (simp only: slots')
    have C: "list_all (\<lambda>a. a < ?u + 1) (passed @ ?u # rest)"
      using a3 us by (fastforce simp: list_all_iff less_Suc_eq)
    have inv': "open_upvalues_inv ?vm'"
      using A B C by (simp add: open_upvalues_inv_def)
    have "filter (\<lambda>a. a \<noteq> ?u) ?us = ?us"
      using fresh by (auto simp: filter_id_conv)
    then have "filter (\<lambda>a. a \<noteq> ?u) (passed @ ?u # rest) = ?us"
      using us by simp
    then show ?thesis
      using r inv' notin fresh by (auto simp: slot_of_upd_open)
  qed
qed

subsection \<open>Every modelled instruction keeps the order of the open upvalues\<close>

lemma inv_fields [simp]:
  "open_upvalues_inv (vm\<lparr>stack := s\<rparr>) = open_upvalues_inv vm"
  "open_upvalues_inv (vm\<lparr>stackTop := t\<rparr>) = open_upvalues_inv vm"
  "open_upvalues_inv (vm\<lparr>frames := f\<rparr>) = open_upvalues_inv vm"
  "open_upvalues_inv (vm\<lparr>frameCount := n\<rparr>) = open_upvalues_inv vm"
  "open_upvalues_inv (vm\<lparr>strings := t'\<rparr>) = open_upvalues_inv vm"
  "open_upvalues_inv (vm\<lparr>stderr := e\<rparr>) = open_upvalues_inv vm"
  by (simp_all add: open_upvalues_inv_def)

lemma inv_runtimeError [simp]: "open_upvalues_inv (runtimeError msg vm)"
  by (simp add: open_upvalues_inv_def runtimeError_def resetStack_def)

lemma inv_push [simp]: "open_upvalues_inv (push v vm) = open_upvalues_inv vm"
  by (simp add: push_def)

lemma inv_pop [simp]: "open_upvalues_inv (snd (pop vm)) = open_upvalues_inv vm"
  by (simp add: pop_def)

lemma inv_pop_eq:
  "pop vm = (x, vm') \<Longrightarrow> open_upvalues_inv vm \<Longrightarrow> open_upvalues_inv vm'"
  by (auto simp: pop_def)

lemma inv_replace_call [simp]:
  "open_upvalues_inv (replace_call v argCount vm) = open_upvalues_inv vm"
  by (simp add: replace_call_def)

lemma inv_set_cur_frame [simp]:
  "open_upvalues_inv (set_cur_frame f vm) = open_upvalues_inv vm"
  by (simp add: set_cur_frame_def)

lemma open_slots_upd_other: "a \<notin> set us \<Longrightarrow> open_slots (h(a \<mapsto> obj)) us = open_slots h us"
  by (induction us) (auto simp: slot_of_def)

lemma inv_heap_upd:
  assumes "open_upvalues_inv vm" and "slot_of (heap vm) a = None"
  shows "open_upvalues_inv (vm\<lparr>heap := (heap vm)(a \<mapsto> obj)\<rparr>)"
proof -
  have "a \<notin> set (openUpvalues vm)"
    using assms by (auto simp: open_upvalues_inv_def open_slots_def list_all_iff)
  then have "open_slots ((heap vm)(a \<mapsto> obj)) (openUpvalues vm) =
      open_slots (heap vm) (openUpvalues vm)"
    by (rule open_slots_upd_other)
  then show ?thesis
    using assms(1) by (simp add: open_upvalues_inv_def)
qed

lemma inv_heap_upd_obj:
  assumes "open_upvalues_inv vm" and "heap vm a = Some old" and "\<And>uv. old \<noteq> OBJ_UPVALUE uv"
  shows "open_upvalues_inv (vm\<lparr>heap := (heap vm)(a \<mapsto> obj)\<rparr>)"
proof -
  have "slot_of (heap vm) a = None"
    using assms(2,3) by (cases old) (auto simp: slot_of_def)
  with assms(1) show ?thesis
    by (rule inv_heap_upd)
qed

lemma inv_allocate:
  assumes "open_upvalues_inv vm"
  shows "open_upvalues_inv (snd (allocate obj vm))"
proof -
  have fresh: "nextObj vm \<notin> set (openUpvalues vm)"
    using assms by (auto simp: open_upvalues_inv_def list_all_iff)
  then have "open_slots ((heap vm)(nextObj vm \<mapsto> obj)) (openUpvalues vm) =
      open_slots (heap vm) (openUpvalues vm)"
    by (rule open_slots_upd_other)
  moreover have "list_all (\<lambda>a. a < Suc (nextObj vm)) (openUpvalues vm)"
    using assms by (auto simp: open_upvalues_inv_def list_all_iff less_Suc_eq)
  ultimately show ?thesis
    using assms by (simp add: open_upvalues_inv_def allocate_def)
qed

lemma inv_allocate_eq:
  "open_upvalues_inv vm \<Longrightarrow> allocate obj vm = (a, vm') \<Longrightarrow> open_upvalues_inv vm'"
  using inv_allocate [of vm obj] by simp

lemma inv_intern:
  "open_upvalues_inv vm \<Longrightarrow> intern s vm = (a, vm') \<Longrightarrow> open_upvalues_inv vm'"
  by (auto simp: intern_def Let_def split: option.splits prod.splits dest: inv_allocate_eq)

lemma inv_string_result:
  "open_upvalues_inv vm \<Longrightarrow> string_result r argCount vm = Done (ok, vm') \<Longrightarrow>
     open_upvalues_inv vm'"
  by (auto simp: string_result_def split: option.splits prod.splits dest: inv_intern)

lemma inv_READ_BYTE:
  "READ_BYTE vm = Some (b, vm') \<Longrightarrow> open_upvalues_inv vm \<Longrightarrow> open_upvalues_inv vm'"
  by (auto simp: READ_BYTE_def Let_def split: option.splits if_splits)

lemma inv_READ_SHORT:
  "READ_SHORT vm = Some (n, vm') \<Longrightarrow> open_upvalues_inv vm \<Longrightarrow> open_upvalues_inv vm'"
  by (auto simp: READ_SHORT_def split: option.splits) (metis inv_READ_BYTE)

lemma inv_READ_CONSTANT:
  "READ_CONSTANT vm = Some (v, vm') \<Longrightarrow> open_upvalues_inv vm \<Longrightarrow> open_upvalues_inv vm'"
  by (auto simp: READ_CONSTANT_def split: option.splits if_splits) (metis inv_READ_BYTE)

lemma inv_READ_STRING:
  "READ_STRING vm = Some (a, vm') \<Longrightarrow> open_upvalues_inv vm \<Longrightarrow> open_upvalues_inv vm'"
  by (auto simp: READ_STRING_def split: option.splits Value.splits if_splits prod.splits)
     (metis inv_READ_CONSTANT)

lemma inv_call:
  "open_upvalues_inv vm \<Longrightarrow> call c argCount vm = Done (ok, vm') \<Longrightarrow> open_upvalues_inv vm'"
  by (auto simp: call_def split: option.splits if_splits)

lemma callValue_bound:
  "heap vm a = Some (OBJ_BOUND_METHOD bound) \<Longrightarrow>
     callValue (OBJ_VAL a) argCount vm =
       call (method bound) argCount
         (vm\<lparr>stack := (stack vm)(stackTop vm - argCount - 1 := receiver bound)\<rparr>)"
  by (simp add: callValue_def)

lemma callValue_closure:
  "heap vm a = Some (OBJ_CLOSURE c) \<Longrightarrow> callValue (OBJ_VAL a) argCount vm = call a argCount vm"
  by (simp add: callValue_def)

lemma callValue_class:
  "heap vm a = Some (OBJ_CLASS k) \<Longrightarrow> newInstance a False vm = (inst, vm1) \<Longrightarrow>
     callValue (OBJ_VAL a) argCount vm =
       (case methods k (initString vm) of
          Some initializer \<Rightarrow>
            (case initializer of
               OBJ_VAL i \<Rightarrow>
                 call i argCount
                   (vm1\<lparr>stack := (stack vm1)(stackTop vm1 - argCount - 1 := OBJ_VAL inst)\<rparr>)
             | _ \<Rightarrow> Undefined)
        | None \<Rightarrow>
            if argCount \<noteq> 0 then
              Done (False, runtimeError (Expected_arguments 0 argCount)
                (vm1\<lparr>stack := (stack vm1)(stackTop vm1 - argCount - 1 := OBJ_VAL inst)\<rparr>))
            else
              Done (True,
                vm1\<lparr>stack := (stack vm1)(stackTop vm1 - argCount - 1 := OBJ_VAL inst)\<rparr>))"
  by (simp add: callValue_def Let_def)

lemma callValue_not_callable:
  "callValue callee argCount vm = Done (ok, vm') \<Longrightarrow>
   (\<And>a. callee = OBJ_VAL a \<Longrightarrow>
      (\<forall>b. heap vm a \<noteq> Some (OBJ_BOUND_METHOD b)) \<and>
      (\<forall>k. heap vm a \<noteq> Some (OBJ_CLASS k)) \<and>
      (\<forall>c. heap vm a \<noteq> Some (OBJ_CLOSURE c))) \<Longrightarrow>
   vm' = runtimeError Only_functions_and_classes_callable vm"
  by (cases callee; simp add: callValue_def split: option.splits Obj.splits)



lemma inv_newInstance:
  "open_upvalues_inv vm \<Longrightarrow> newInstance k st vm = (inst, vm1) \<Longrightarrow> open_upvalues_inv vm1"
  unfolding newInstance_def by (rule inv_allocate_eq)

lemma inv_callValue:
  assumes "open_upvalues_inv vm" and "callValue callee argCount vm = Done (ok, vm')"
  shows "open_upvalues_inv vm'"
proof -
  consider
      (bound) a bound where "callee = OBJ_VAL a" "heap vm a = Some (OBJ_BOUND_METHOD bound)"
    | (cls) a k where "callee = OBJ_VAL a" "heap vm a = Some (OBJ_CLASS k)"
    | (closure) a c where "callee = OBJ_VAL a" "heap vm a = Some (OBJ_CLOSURE c)"
    | (other) "\<And>a. callee = OBJ_VAL a \<Longrightarrow>
        (\<forall>b. heap vm a \<noteq> Some (OBJ_BOUND_METHOD b)) \<and>
        (\<forall>k. heap vm a \<noteq> Some (OBJ_CLASS k)) \<and>
        (\<forall>c. heap vm a \<noteq> Some (OBJ_CLOSURE c))"
    by blast
  then show ?thesis
  proof cases
    case bound
    have "call (method bound) argCount
        (vm\<lparr>stack := (stack vm)(stackTop vm - argCount - 1 := receiver bound)\<rparr>) =
        Done (ok, vm')"
      using assms(2) bound(1) callValue_bound [OF bound(2)] by simp
    moreover have "open_upvalues_inv
        (vm\<lparr>stack := (stack vm)(stackTop vm - argCount - 1 := receiver bound)\<rparr>)"
      using assms(1) by simp
    ultimately show ?thesis
      using inv_call by blast
  next
    case cls
    obtain inst vm1 where al: "newInstance a False vm = (inst, vm1)"
      by (cases "newInstance a False vm")
    have i1: "open_upvalues_inv vm1"
      using assms(1) al by (rule inv_newInstance)
    let ?vm2 = "vm1\<lparr>stack := (stack vm1)(stackTop vm1 - argCount - 1 := OBJ_VAL inst)\<rparr>"
    have i2: "open_upvalues_inv ?vm2"
      using i1 by simp
    note eq = assms(2) [unfolded cls(1) callValue_class [OF cls(2) al]]
    show ?thesis
    proof (cases "methods k (initString vm)")
      case None
      then have "vm' = runtimeError (Expected_arguments 0 argCount) ?vm2 \<or> vm' = ?vm2"
        using eq by (simp split: if_splits)
      then show ?thesis
        using i2 inv_runtimeError by metis
    next
      case (Some initializer)
      then obtain i where "call i argCount ?vm2 = Done (ok, vm')"
        using eq by (cases initializer) simp_all
      then show ?thesis
        using i2 inv_call by blast
    qed
  next
    case closure
    have "call a argCount vm = Done (ok, vm')"
      using assms(2) closure(1) callValue_closure [OF closure(2)] by simp
    then show ?thesis
      using assms(1) inv_call by blast
  next
    case other
    then show ?thesis
      using callValue_not_callable [OF assms(2)] by simp
  qed
qed

lemma inv_store_list:
  "open_upvalues_inv vm \<Longrightarrow> list_at vm v = Some (a, xs) \<Longrightarrow>
     open_upvalues_inv (store_list a ys vm)"
  by (auto simp: list_at_def store_list_def split: Value.splits option.splits Obj.splits
        intro: inv_heap_upd_obj)

lemma inv_invokeString_length:
  "open_upvalues_inv vm \<Longrightarrow> invokeString_length rcv argCount vm = Done (ok, vm') \<Longrightarrow>
     open_upvalues_inv vm'"
  by (auto simp: invokeString_length_def split: option.splits if_splits)

lemma inv_invokeString_indexOf:
  "open_upvalues_inv vm \<Longrightarrow> invokeString_indexOf rcv argCount vm = Done (ok, vm') \<Longrightarrow>
     open_upvalues_inv vm'"
  by (auto simp: invokeString_indexOf_def split: option.splits if_splits)

lemma inv_invokeString_count:
  "open_upvalues_inv vm \<Longrightarrow> invokeString_count rcv argCount vm = Done (ok, vm') \<Longrightarrow>
     open_upvalues_inv vm'"
  by (auto simp: invokeString_count_def split: option.splits if_splits)

lemma inv_invokeString_trimming:
  "open_upvalues_inv vm \<Longrightarrow>
     invokeString_trimming core L rcv argCount vm = Done (ok, vm') \<Longrightarrow>
     open_upvalues_inv vm'"
  by (auto simp: invokeString_trimming_def split: option.splits if_splits
        dest: inv_string_result)

lemma inv_invokeString_case:
  "open_upvalues_inv vm \<Longrightarrow> invokeString_case tow rcv argCount vm = Done (ok, vm') \<Longrightarrow>
     open_upvalues_inv vm'"
  by (auto simp: invokeString_case_def split: option.splits if_splits
        dest: inv_string_result)

lemma inv_invokeString_substring:
  "open_upvalues_inv vm \<Longrightarrow> invokeString_substring rcv argCount vm = Done (ok, vm') \<Longrightarrow>
     open_upvalues_inv vm'"
  by (auto simp: invokeString_substring_def split: option.splits if_splits sum.splits
        dest: inv_string_result)

lemmas inv_invokeString_branches =
  inv_invokeString_length inv_invokeString_indexOf inv_invokeString_count
  inv_invokeString_trimming inv_invokeString_case inv_invokeString_substring

lemma inv_invokeString:
  assumes "open_upvalues_inv vm" and "invokeString L rcv nm argCount vm = Done (ok, vm')"
  shows "open_upvalues_inv vm'"
  using assms(2) inv_invokeString_branches [OF assms(1)]
  by (auto simp: invokeString_def split: option.splits if_splits)

lemma inv_invokeList_push:
  "open_upvalues_inv vm \<Longrightarrow> invokeList_push rcv argCount vm = Done (ok, vm') \<Longrightarrow>
     open_upvalues_inv vm'"
  by (auto simp: invokeList_push_def Let_def split: option.splits if_splits)
     (blast intro: inv_store_list)+

lemma inv_invokeList_pop:
  "open_upvalues_inv vm \<Longrightarrow> invokeList_pop rcv argCount vm = Done (ok, vm') \<Longrightarrow>
     open_upvalues_inv vm'"
  by (auto simp: invokeList_pop_def Let_def split: option.splits if_splits)
     (blast intro: inv_store_list)+

lemma inv_invokeList_insert:
  "open_upvalues_inv vm \<Longrightarrow> invokeList_insert rcv argCount vm = Done (ok, vm') \<Longrightarrow>
     open_upvalues_inv vm'"
  by (auto simp: invokeList_insert_def Let_def split: option.splits if_splits)
     (blast intro: inv_store_list)+

lemma inv_invokeList_remove:
  "open_upvalues_inv vm \<Longrightarrow> invokeList_remove rcv argCount vm = Done (ok, vm') \<Longrightarrow>
     open_upvalues_inv vm'"
  by (auto simp: invokeList_remove_def Let_def split: option.splits if_splits)
     (blast intro: inv_store_list)+

lemma inv_invokeList_length:
  "open_upvalues_inv vm \<Longrightarrow> invokeList_length rcv argCount vm = Done (ok, vm') \<Longrightarrow>
     open_upvalues_inv vm'"
  by (auto simp: invokeList_length_def split: option.splits if_splits)

lemmas inv_invokeList_branches =
  inv_invokeList_push inv_invokeList_pop inv_invokeList_insert inv_invokeList_remove
  inv_invokeList_length

lemma inv_invokeList:
  assumes "open_upvalues_inv vm" and "invokeList rcv nm argCount vm = Done (ok, vm')"
  shows "open_upvalues_inv vm'"
  using assms(2) inv_invokeList_branches [OF assms(1)]
  by (auto simp: invokeList_def split: option.splits if_splits)

lemma inv_invokeFromClass:
  assumes "open_upvalues_inv vm" and "invokeFromClass k st nm argCount vm = Done (ok, vm')"
  shows "open_upvalues_inv vm'"
  using assms(2) inv_call [OF assms(1)]
  by (auto simp: invokeFromClass_def split: option.splits if_splits Value.splits)

lemma inv_invokeInstance:
  assumes "open_upvalues_inv vm" and "invokeInstance rcv nm argCount vm = Done (ok, vm')"
  shows "open_upvalues_inv vm'"
proof (cases "AS_INSTANCE vm rcv")
  case None
  then show ?thesis using assms(2) by (simp add: invokeInstance_def)
next
  case (Some inst)
  show ?thesis
  proof (cases "fields_t inst nm")
    case None
    then show ?thesis
      using assms Some by (auto simp: invokeInstance_def dest: inv_invokeFromClass)
  next
    case (Some v)
    have "open_upvalues_inv (vm\<lparr>stack := (stack vm)(stackTop vm - argCount - 1 := v)\<rparr>)"
      using assms(1) by simp
    moreover have "callValue v argCount
        (vm\<lparr>stack := (stack vm)(stackTop vm - argCount - 1 := v)\<rparr>) = Done (ok, vm')"
      using assms(2) Some \<open>AS_INSTANCE vm rcv = Some inst\<close>
      by (simp add: invokeInstance_def)
    ultimately show ?thesis
      by (rule inv_callValue)
  qed
qed

lemma inv_invoke:
  assumes "open_upvalues_inv vm" and "invoke L nm argCount vm = Done (ok, vm')"
  shows "open_upvalues_inv vm'"
  using assms(2) inv_invokeInstance [OF assms(1)] inv_invokeString [OF assms(1)]
    inv_invokeList [OF assms(1)]
  by (auto simp: invoke_def Let_def split: if_splits)

lemma inv_bindMethod:
  assumes "open_upvalues_inv vm" and "bindMethod k nm vm = Done (ok, vm')"
  shows "open_upvalues_inv vm'"
  using assms(2) inv_allocate [OF assms(1)]
  by (auto simp: bindMethod_def split: option.splits if_splits Value.splits prod.splits)
     (metis snd_conv)

lemma inv_defineMethod:
  assumes "open_upvalues_inv vm" and "defineMethod nm vm = Some vm'"
  shows "open_upvalues_inv vm'"
  using assms
  by (auto simp: defineMethod_def split: option.splits Value.splits Obj.splits
        intro: inv_heap_upd_obj)

lemma inv_after_call:
  "after_call r = Done (x, vm') \<Longrightarrow> \<exists>ok. r = Done (ok, vm')"
  by (auto simp: after_call_def split: outcome.splits)

lemma inv_closeUpvalues:
  "open_upvalues_inv vm \<Longrightarrow> closeUpvalues last_p vm = Done vm' \<Longrightarrow> open_upvalues_inv vm'"
  using closeUpvalues_keeps_order [of vm last_p] by auto

lemma inv_captureUpvalue:
  "open_upvalues_inv vm \<Longrightarrow> captureUpvalue local vm = Done (u, vm') \<Longrightarrow>
     open_upvalues_inv vm'"
  using captureUpvalue_keeps_order [of vm local] by auto

lemma inv_op_get_property:
  assumes "open_upvalues_inv vm" and "op_get_property vm = Done (r, vm')"
  shows "open_upvalues_inv vm'"
proof (cases "IS_INSTANCE vm (peek vm 0)")
  case False
  then show ?thesis using assms(2) by (auto simp: op_get_property_def fail_def)
next
  case True
  then obtain inst nm vm1 where i: "AS_INSTANCE vm (peek vm 0) = Some inst"
    and n: "READ_STRING vm = Some (nm, vm1)"
    using assms(2) by (auto simp: op_get_property_def split: option.splits)
  have i1: "open_upvalues_inv vm1"
    using n assms(1) by (rule inv_READ_STRING)
  show ?thesis
  proof (cases "fields_t inst nm")
    case None
    then have "after_call (bindMethod (klass inst) nm vm1) = Done (r, vm')"
      using assms(2) True i n by (simp add: op_get_property_def)
    then obtain ok where "bindMethod (klass inst) nm vm1 = Done (ok, vm')"
      using inv_after_call by blast
    with i1 show ?thesis by (rule inv_bindMethod)
  next
    case (Some v)
    then have "vm' = push v (snd (pop vm1))"
      using assms(2) True i n by (simp add: op_get_property_def)
    then show ?thesis using i1 by simp
  qed
qed

lemma inv_op_call:
  assumes "open_upvalues_inv vm" and "op_call vm = Done (r, vm')"
  shows "open_upvalues_inv vm'"
proof -
  obtain b vm1 where b: "READ_BYTE vm = Some (b, vm1)"
    using assms(2) by (auto simp: op_call_def split: option.splits)
  then have "after_call (callValue (peek vm1 (int (unat b))) (int (unat b)) vm1) = Done (r, vm')"
    using assms(2) by (simp add: op_call_def Let_def)
  then obtain ok where "callValue (peek vm1 (int (unat b))) (int (unat b)) vm1 = Done (ok, vm')"
    using inv_after_call by blast
  moreover have "open_upvalues_inv vm1"
    using b assms(1) by (rule inv_READ_BYTE)
  ultimately show ?thesis by (rule inv_callValue [rotated])
qed

lemma inv_op_invoke:
  assumes "open_upvalues_inv vm" and "op_invoke L vm = Done (r, vm')"
  shows "open_upvalues_inv vm'"
proof -
  obtain nm vm1 where n: "READ_STRING vm = Some (nm, vm1)"
    using assms(2) by (auto simp: op_invoke_def split: option.splits)
  then obtain b vm2 where b: "READ_BYTE vm1 = Some (b, vm2)"
    using assms(2) by (auto simp: op_invoke_def split: option.splits)
  have "after_call (invoke L nm (int (unat b)) vm2) = Done (r, vm')"
    using assms(2) n b by (simp add: op_invoke_def)
  then obtain ok where "invoke L nm (int (unat b)) vm2 = Done (ok, vm')"
    using inv_after_call by blast
  moreover have "open_upvalues_inv vm2"
    using b inv_READ_STRING [OF n assms(1)] by (rule inv_READ_BYTE)
  ultimately show ?thesis by (rule inv_invoke [rotated])
qed

lemma inv_op_close_upvalue:
  assumes "open_upvalues_inv vm" and "op_close_upvalue vm = Done (r, vm')"
  shows "open_upvalues_inv vm'"
proof -
  obtain vm1 where c: "closeUpvalues (stackTop vm - 1) vm = Done vm1" and v: "vm' = snd (pop vm1)"
    using assms(2) by (auto simp: op_close_upvalue_def split: outcome.splits)
  have "open_upvalues_inv vm1"
    using assms(1) c by (rule inv_closeUpvalues)
  then show ?thesis using v by simp
qed

lemma inv_op_return:
  assumes "open_upvalues_inv vm" and "op_return vm = Done (r, vm')"
  shows "open_upvalues_inv vm'"
proof -
  obtain result vm1 where p: "pop vm = (result, vm1)"
    by (cases "pop vm")
  then have i1: "open_upvalues_inv vm1"
    using assms(1) inv_pop [of vm] by simp
  obtain vm2 where c: "closeUpvalues (slots (frames vm (frameCount vm - 1))) vm1 = Done vm2"
    using assms(2) p by (auto simp: op_return_def Let_def split: outcome.splits)
  have i2: "open_upvalues_inv vm2"
    using i1 c by (rule inv_closeUpvalues)
  show ?thesis
    using assms(2) p c i2
    by (auto simp: op_return_def Let_def split: if_splits)
qed

lemma inv_op_class:
  assumes "open_upvalues_inv vm" and "op_class vm = Done (r, vm')"
  shows "open_upvalues_inv vm'"
proof -
  obtain nm vm1 where n: "READ_STRING vm = Some (nm, vm1)"
    using assms(2) by (auto simp: op_class_def split: option.splits)
  have "open_upvalues_inv (snd (allocate (OBJ_CLASS \<lparr>name = nm, methods = Map.empty\<rparr>) vm1))"
    using inv_READ_STRING [OF n assms(1)] by (rule inv_allocate)
  then show ?thesis
    using assms(2) n by (auto simp: op_class_def split: prod.splits)
qed

lemma inv_op_inherit:
  assumes "open_upvalues_inv vm" and "op_inherit vm = Done (r, vm')"
  shows "open_upvalues_inv vm'"
  using assms
  by (auto simp: op_inherit_def fail_def Let_def
        split: option.splits Value.splits Obj.splits intro: inv_heap_upd_obj)

lemma inv_op_local:
  assumes "open_upvalues_inv vm" and "op_local w vm = Done (r, vm')"
  shows "open_upvalues_inv vm'"
  using assms(2) inv_READ_BYTE [OF _ assms(1)]
  by (auto simp: op_local_def Let_def split: option.splits if_splits)

lemma inv_op_jump:
  assumes "open_upvalues_inv vm" and "op_jump opc vm = Done (r, vm')"
  shows "open_upvalues_inv vm'"
  using assms(2) inv_READ_SHORT [OF _ assms(1)]
  by (auto simp: op_jump_def Let_def split: option.splits if_splits)

lemma inv_op_upvalue:
  assumes "open_upvalues_inv vm" and "op_upvalue w vm = Done (r, vm')"
  shows "open_upvalues_inv vm'"
proof -
  obtain b vm1 where b: "READ_BYTE vm = Some (b, vm1)"
    using assms(2) by (auto simp: op_upvalue_def split: option.splits)
  have i1: "open_upvalues_inv vm1"
    using b assms(1) by (rule inv_READ_BYTE)
  obtain u uv where u: "cur_upvalue (unat b) vm1 = Some (u, uv)"
    using assms(2) b by (auto simp: op_upvalue_def split: option.splits)
  then have h: "heap vm1 u = Some (OBJ_UPVALUE uv)"
    by (auto simp: cur_upvalue_def split: option.splits if_splits Obj.splits)
  show ?thesis
  proof (cases "location uv")
    case (Slot i)
    then show ?thesis
      using assms(2) b u i1 by (auto simp: op_upvalue_def split: if_splits)
  next
    case Own_closed
    then have "slot_of (heap vm1) u = None"
      using h by (simp add: slot_of_def)
    then have "open_upvalues_inv
        (vm1\<lparr>heap := (heap vm1)(u \<mapsto> OBJ_UPVALUE (uv\<lparr>closed := peek vm1 0\<rparr>))\<rparr>)"
      using i1 by (intro inv_heap_upd)
    then show ?thesis
      using assms(2) b u i1 Own_closed by (auto simp: op_upvalue_def split: if_splits)
  qed
qed

lemma inv_set_closure_upvalue:
  "open_upvalues_inv vm \<Longrightarrow> set_closure_upvalue c i u vm = Some vm' \<Longrightarrow>
     open_upvalues_inv vm'"
  by (auto simp: set_closure_upvalue_def split: option.splits Obj.splits if_splits
        intro: inv_heap_upd_obj)

lemma inv_capture_loop:
  "open_upvalues_inv vm \<Longrightarrow> capture_loop c i n vm = Done vm' \<Longrightarrow> open_upvalues_inv vm'"
proof (induction n arbitrary: i vm)
  case 0
  then show ?case by simp
next
  case (Suc n)
  obtain isLocal vm1 where r1: "READ_BYTE vm = Some (isLocal, vm1)"
    using Suc.prems(2) by (auto split: option.splits)
  then obtain index vm2 where r2: "READ_BYTE vm1 = Some (index, vm2)"
    using Suc.prems(2) by (auto split: option.splits)
  have i2: "open_upvalues_inv vm2"
    using r2 inv_READ_BYTE [OF r1 Suc.prems(1)] by (rule inv_READ_BYTE)
  show ?case
  proof (cases "isLocal \<noteq> 0")
    case True
    then obtain u vm3 vm4 where
      "captureUpvalue (slots (cur_frame vm2) + int (unat index)) vm2 = Done (u, vm3)"
      "set_closure_upvalue c i (Some u) vm3 = Some vm4"
      "capture_loop c (Suc i) n vm4 = Done vm'"
      using Suc.prems(2) r1 r2 by (auto split: outcome.splits option.splits)
    then show ?thesis
      using i2 Suc.IH inv_captureUpvalue inv_set_closure_upvalue by blast
  next
    case False
    then obtain v vm4 where
      "set_closure_upvalue c i v vm2 = Some vm4"
      "capture_loop c (Suc i) n vm4 = Done vm'"
      using Suc.prems(2) r1 r2 by (auto split: option.splits if_splits)
    then show ?thesis
      using i2 Suc.IH inv_set_closure_upvalue by blast
  qed
qed

lemma inv_op_closure:
  assumes "open_upvalues_inv vm" and "op_closure vm = Done (r, vm')"
  shows "open_upvalues_inv vm'"
proof -
  obtain f vm1 fn where c: "READ_CONSTANT vm = Some (OBJ_VAL f, vm1)"
    and f: "AS_FUNCTION vm1 (OBJ_VAL f) = Some fn"
    using assms(2)
    by (auto simp: op_closure_def split: option.splits Value.splits prod.splits)
  let ?obj = "OBJ_CLOSURE \<lparr>function = f, upvalues = replicate (nat (upvalueCount fn)) None\<rparr>"
  obtain a vm2 where al: "allocate ?obj vm1 = (a, vm2)"
    by (cases "allocate ?obj vm1")
  have i2: "open_upvalues_inv (push (OBJ_VAL a) vm2)"
    using inv_allocate_eq [OF inv_READ_CONSTANT [OF c assms(1)] al] by simp
  have "capture_loop a 0 (nat (upvalueCount fn)) (push (OBJ_VAL a) vm2) = Done vm'"
    using assms(2) c f al by (auto simp: op_closure_def split: outcome.splits)
  with i2 show ?thesis by (rule inv_capture_loop)
qed

lemma inv_step:
  assumes "open_upvalues_inv vm" and "step L vm = Done (r, vm')"
  shows "open_upvalues_inv vm'"
proof -
  obtain b vm1 where b: "READ_BYTE vm = Some (b, vm1)"
    using assms(2) by (auto simp: step_def split: option.splits)
  have i1: "open_upvalues_inv vm1"
    using b assms(1) by (rule inv_READ_BYTE)
  note ops = inv_op_local [OF i1] inv_op_upvalue [OF i1] inv_op_get_property [OF i1]
    inv_op_jump [OF i1] inv_op_call [OF i1] inv_op_invoke [OF i1] inv_op_closure [OF i1]
    inv_op_close_upvalue [OF i1] inv_op_return [OF i1] inv_op_class [OF i1]
    inv_op_inherit [OF i1]
  have c: "open_upvalues_inv vm2" if "READ_CONSTANT vm1 = Some (v, vm2)" for v vm2
    using that i1 by (rule inv_READ_CONSTANT)
  have p: "open_upvalues_inv vm2" if "pop vm1 = (v, vm2)" for v vm2
    using that i1 by (rule inv_pop_eq)
  have m: "open_upvalues_inv vm3"
    if "READ_STRING vm1 = Some (nm, vm2)" "defineMethod nm vm2 = Some vm3" for nm vm2 vm3
    using that i1 inv_READ_STRING inv_defineMethod by blast
  have s: "step L vm = Done (r, vm')"
    by (rule assms(2))
  show ?thesis
    using s i1 unfolding step_def b option.case prod.case
    by (auto simp: Let_def split: if_splits option.splits prod.splits intro: ops c p m)
qed

lemma inv_run:
  "open_upvalues_inv vm \<Longrightarrow> run L fuel vm = Done (r, vm') \<Longrightarrow> open_upvalues_inv vm'"
proof (induction fuel arbitrary: vm)
  case 0
  then show ?case by simp
next
  case (Suc fuel)
  then obtain x vm1 where s: "step L vm = Done (x, vm1)"
    by (auto split: outcome.splits)
  have i1: "open_upvalues_inv vm1"
    using Suc.prems(1) s by (rule inv_step)
  show ?case
  proof (cases x)
    case None
    then show ?thesis using Suc s i1 by auto
  next
    case (Some res)
    then show ?thesis using Suc.prems(2) s i1 by auto
  qed
qed

lemma inv_foldl_push:
  "open_upvalues_inv (foldl (\<lambda>s v. push v s) vm args) = open_upvalues_inv vm"
  by (induction args arbitrary: vm) simp_all

lemma inv_runClosure:
  assumes "open_upvalues_inv vm" and "runClosure L fuel clo args vm = Done (r, vm')"
  shows "open_upvalues_inv vm'"
proof -
  let ?vm1 = "foldl (\<lambda>s v. push v s) vm args"
  obtain ok vm2 where c: "call clo (int (length args)) ?vm1 = Done (ok, vm2)"
    using assms(2) by (auto simp: runClosure_def Let_def split: outcome.splits)
  have i2: "open_upvalues_inv vm2"
    using c assms(1) by (intro inv_call [OF _ c]) (simp add: inv_foldl_push)
  let ?vm3 = "vm2\<lparr>frames := (frames vm2)(frameCount vm2 - 1 :=
      (frames vm2 (frameCount vm2 - 1))\<lparr>callClosure := True\<rparr>)\<rparr>"
  obtain res vm4 where r: "run L fuel ?vm3 = Done (res, vm4)"
    using assms(2) c by (auto simp: runClosure_def Let_def split: outcome.splits if_splits)
  have i4: "open_upvalues_inv vm4"
    using i2 by (intro inv_run [OF _ r]) simp
  show ?thesis
    using assms(2) c r i4
    by (auto simp: runClosure_def Let_def split: if_splits prod.splits) (metis inv_pop_eq)
qed

text \<open>
  C3. The chain of open upvalues is strictly descending in the stack slots (so no two
  open upvalues share a location) in the reset machine, and it stays so: every modelled
  instruction of the dispatch loop, and every run of the loop, keeps the order. The two
  functions that change the chain behave as follows: \<open>captureUpvalue\<close> returns the
  upvalue of the chain for the requested slot when there is one and leaves the machine
  as it is, and otherwise links a new open upvalue for the slot into the chain without
  disturbing the others; \<open>closeUpvalues\<close> unlinks exactly the upvalues at or above the
  given address, each left closed with a copy of the slot's value, and changes no other
  object.
\<close>

theorem open_upvalues_stay_sorted:
  "open_upvalues_inv (resetStack vm)
   \<and> (open_upvalues_inv vm \<longrightarrow>
        distinct (open_slots (heap vm) (openUpvalues vm)))
   \<and> (open_upvalues_inv vm \<longrightarrow>
        (\<exists>u vm'. captureUpvalue local vm = Done (u, vm') \<and> open_upvalues_inv vm'
           \<and> slot_of (heap vm') u = Some local \<and> u \<in> set (openUpvalues vm')
           \<and> (if Some local \<in> set (open_slots (heap vm) (openUpvalues vm))
               then vm' = vm
               else u \<notin> set (openUpvalues vm)
                    \<and> filter (\<lambda>a. a \<noteq> u) (openUpvalues vm') = openUpvalues vm
                    \<and> (\<forall>a. a \<noteq> u \<longrightarrow> heap vm' a = heap vm a)
                    \<and> stack vm' = stack vm \<and> stackTop vm' = stackTop vm)))
   \<and> (open_upvalues_inv vm \<longrightarrow>
        (\<exists>vm'. closeUpvalues last_p vm = Done vm' \<and> open_upvalues_inv vm'
           \<and> openUpvalues vm' = filter (below (heap vm) last_p) (openUpvalues vm)
           \<and> (\<forall>a. a \<in> set (openUpvalues vm) \<and> at_or_above (heap vm) last_p a \<longrightarrow>
                  heap vm' a = closed_copy (stack vm) (heap vm) a)
           \<and> (\<forall>a. \<not> (a \<in> set (openUpvalues vm) \<and> at_or_above (heap vm) last_p a) \<longrightarrow>
                  heap vm' a = heap vm a)
           \<and> stack vm' = stack vm \<and> stackTop vm' = stackTop vm))
   \<and> (open_upvalues_inv vm_s \<and> step L vm_s = Done (x, vm_s') \<longrightarrow> open_upvalues_inv vm_s')
   \<and> (open_upvalues_inv vm_r \<and> run L fuel vm_r = Done (r, vm_r') \<longrightarrow> open_upvalues_inv vm_r')"
proof (intro conjI impI)
  show "open_upvalues_inv (resetStack vm)"
    by (simp add: open_upvalues_inv_def resetStack_def)
next
  assume "open_upvalues_inv vm"
  then have "sorted_wrt desc (open_slots (heap vm) (openUpvalues vm))"
    by (simp add: open_upvalues_inv_def)
  then have "sorted_wrt (\<noteq>) (open_slots (heap vm) (openUpvalues vm))"
    by (rule sorted_wrt_mono_rel [rotated]) (auto simp: desc_def split: option.splits)
  then show "distinct (open_slots (heap vm) (openUpvalues vm))"
    by (simp add: distinct_conv_nth sorted_wrt_iff_nth_less nat_neq_iff) metis
next
  assume "open_upvalues_inv vm"
  then show "\<exists>u vm'. captureUpvalue local vm = Done (u, vm') \<and> open_upvalues_inv vm'
           \<and> slot_of (heap vm') u = Some local \<and> u \<in> set (openUpvalues vm')
           \<and> (if Some local \<in> set (open_slots (heap vm) (openUpvalues vm))
               then vm' = vm
               else u \<notin> set (openUpvalues vm)
                    \<and> filter (\<lambda>a. a \<noteq> u) (openUpvalues vm') = openUpvalues vm
                    \<and> (\<forall>a. a \<noteq> u \<longrightarrow> heap vm' a = heap vm a)
                    \<and> stack vm' = stack vm \<and> stackTop vm' = stackTop vm)"
    by (rule captureUpvalue_keeps_order)
next
  assume "open_upvalues_inv vm"
  then show "\<exists>vm'. closeUpvalues last_p vm = Done vm' \<and> open_upvalues_inv vm'
           \<and> openUpvalues vm' = filter (below (heap vm) last_p) (openUpvalues vm)
           \<and> (\<forall>a. a \<in> set (openUpvalues vm) \<and> at_or_above (heap vm) last_p a \<longrightarrow>
                  heap vm' a = closed_copy (stack vm) (heap vm) a)
           \<and> (\<forall>a. \<not> (a \<in> set (openUpvalues vm) \<and> at_or_above (heap vm) last_p a) \<longrightarrow>
                  heap vm' a = heap vm a)
           \<and> stack vm' = stack vm \<and> stackTop vm' = stackTop vm"
    by (rule closeUpvalues_keeps_order)
next
  assume "open_upvalues_inv vm_s \<and> step L vm_s = Done (x, vm_s')"
  then show "open_upvalues_inv vm_s'"
    using inv_step by blast
next
  assume "open_upvalues_inv vm_r \<and> run L fuel vm_r = Done (r, vm_r')"
  then show "open_upvalues_inv vm_r'"
    using inv_run by blast
qed

lemma vm_up_inv: "open_upvalues_inv vm_up"
  by (simp add: open_upvalues_inv_def vm_up_def vm_empty_def slot_of_def)

theorem open_upvalues_stay_sorted_witness:
  "open_upvalues_inv (resetStack vm_up)
   \<and> distinct (open_slots (heap vm_up) (openUpvalues vm_up))
   \<and> (\<exists>u vm'. captureUpvalue 3 vm_up = Done (u, vm') \<and> open_upvalues_inv vm'
         \<and> slot_of (heap vm') u = Some 3 \<and> u \<in> set (openUpvalues vm')
         \<and> u \<notin> set (openUpvalues vm_up)
         \<and> filter (\<lambda>a. a \<noteq> u) (openUpvalues vm') = [40, 41])
   \<and> (\<exists>vm'. closeUpvalues 3 vm_up = Done vm' \<and> open_upvalues_inv vm'
         \<and> openUpvalues vm' = [41]
         \<and> heap vm' 40 = Some (OBJ_UPVALUE \<lparr>location = Own_closed, closed = NUMBER_VAL 50\<rparr>)
         \<and> heap vm' 41 = Some (OBJ_UPVALUE \<lparr>location = Slot 2, closed = NIL_VAL\<rparr>))
   \<and> (\<exists>x vm'. step C_locale vm_step = Done (x, vm') \<and> open_upvalues_inv vm')
   \<and> (\<exists>r vm'. run C_locale 3 vm_step = Done (r, vm') \<and> openUpvalues vm' = [40]
         \<and> open_upvalues_inv vm')"
proof -
  note t = open_upvalues_stay_sorted [where vm = vm_up and local = 3 and last_p = 3]
  note t2 = t [THEN conjunct2, THEN conjunct1, THEN mp, OF vm_up_inv]
  note t3 = t [THEN conjunct2, THEN conjunct2, THEN conjunct1, THEN mp, OF vm_up_inv]
  note t4 = t [THEN conjunct2, THEN conjunct2, THEN conjunct2, THEN conjunct1, THEN mp,
    OF vm_up_inv]
  have 1: "open_upvalues_inv (resetStack vm_up)"
    using t by (rule conjunct1)
  have 2: "distinct (open_slots (heap vm_up) (openUpvalues vm_up))"
    by (rule t2)
  have n: "Some 3 \<notin> set (open_slots (heap vm_up) (openUpvalues vm_up))"
    by (simp add: vm_up_def vm_empty_def slot_of_def)
  have u: "openUpvalues vm_up = [40, 41]"
    by (simp add: vm_up_def vm_empty_def)
  obtain x vm' where c: "captureUpvalue 3 vm_up = Done (x, vm')" "open_upvalues_inv vm'"
      "slot_of (heap vm') x = Some 3" "x \<in> set (openUpvalues vm')"
      "x \<notin> set (openUpvalues vm_up)"
      "filter (\<lambda>a. a \<noteq> x) (openUpvalues vm') = openUpvalues vm_up"
    using t3 n by auto
  have 3: "\<exists>u vm'. captureUpvalue 3 vm_up = Done (u, vm') \<and> open_upvalues_inv vm'
         \<and> slot_of (heap vm') u = Some 3 \<and> u \<in> set (openUpvalues vm')
         \<and> u \<notin> set (openUpvalues vm_up)
         \<and> filter (\<lambda>a. a \<noteq> u) (openUpvalues vm') = [40, 41]"
    using c u by metis
  obtain vm2 where d: "closeUpvalues 3 vm_up = Done vm2" "open_upvalues_inv vm2"
      "openUpvalues vm2 = filter (below (heap vm_up) 3) (openUpvalues vm_up)"
      "\<forall>a. a \<in> set (openUpvalues vm_up) \<and> at_or_above (heap vm_up) 3 a \<longrightarrow>
            heap vm2 a = closed_copy (stack vm_up) (heap vm_up) a"
      "\<forall>a. \<not> (a \<in> set (openUpvalues vm_up) \<and> at_or_above (heap vm_up) 3 a) \<longrightarrow>
            heap vm2 a = heap vm_up a"
    using t4 by blast
  have e: "filter (below (heap vm_up) 3) (openUpvalues vm_up) = [41]"
      "at_or_above (heap vm_up) 3 40" "\<not> at_or_above (heap vm_up) 3 41"
      "closed_copy (stack vm_up) (heap vm_up) 40 =
         Some (OBJ_UPVALUE \<lparr>location = Own_closed, closed = NUMBER_VAL 50\<rparr>)"
      "heap vm_up 41 = Some (OBJ_UPVALUE \<lparr>location = Slot 2, closed = NIL_VAL\<rparr>)"
    by (simp_all add: vm_up_def vm_empty_def below_def at_or_above_def closed_copy_def
          slot_of_def)
  have "heap vm2 40 = Some (OBJ_UPVALUE \<lparr>location = Own_closed, closed = NUMBER_VAL 50\<rparr>)"
    using d(4) e(2,4) u by simp
  moreover have "heap vm2 41 = Some (OBJ_UPVALUE \<lparr>location = Slot 2, closed = NIL_VAL\<rparr>)"
    using d(5) e(3,5) by simp
  ultimately have 4: "\<exists>vm'. closeUpvalues 3 vm_up = Done vm' \<and> open_upvalues_inv vm'
         \<and> openUpvalues vm' = [41]
         \<and> heap vm' 40 = Some (OBJ_UPVALUE \<lparr>location = Own_closed, closed = NUMBER_VAL 50\<rparr>)
         \<and> heap vm' 41 = Some (OBJ_UPVALUE \<lparr>location = Slot 2, closed = NIL_VAL\<rparr>)"
    using d(1,2,3) e(1) by simp
  have si: "open_upvalues_inv vm_step"
    by (simp add: open_upvalues_inv_def vm_step_def vm_cb_def vm_empty_def slot_of_def)
  obtain x vm1 where s1: "step C_locale vm_step = Done (x, vm1)"
    by (simp add: vm_step_def vm_cb_def vm_empty_def push_def
          AS_CLOSURE_def AS_FUNCTION_def deref_def
          step_def READ_BYTE_def cur_chunk_def cur_frame_def set_cur_frame_def
          OpCode_defs op_local_def Let_def)
  note t5 = open_upvalues_stay_sorted [where vm_s = vm_step and L = C_locale and x = x
      and vm_s' = vm1, THEN conjunct2, THEN conjunct2, THEN conjunct2, THEN conjunct2,
      THEN conjunct1, THEN mp, OF conjI, OF si s1]
  have 5: "\<exists>x vm'. step C_locale vm_step = Done (x, vm') \<and> open_upvalues_inv vm'"
    using s1 t5 by blast
  obtain r vm2 where r2: "run C_locale 3 vm_step = Done (r, vm2)"
    and o2: "openUpvalues vm2 = [40]"
    by (simp add: vm_step_def vm_cb_def vm_empty_def push_def pop_def peek_def
          AS_CLOSURE_def AS_FUNCTION_def deref_def numeral_3_eq_3
          step_def READ_BYTE_def cur_chunk_def cur_frame_def set_cur_frame_def
          OpCode_defs op_local_def op_return_def closeUpvalues_def slot_of_def
          Let_def)
  have 6: "\<exists>r vm'. run C_locale 3 vm_step = Done (r, vm') \<and> openUpvalues vm' = [40]
         \<and> open_upvalues_inv vm'"
    using r2 o2
      open_upvalues_stay_sorted [where vm_r = vm_step and L = C_locale and fuel = 3
        and r = r and vm_r' = vm2, THEN conjunct2, THEN conjunct2, THEN conjunct2,
        THEN conjunct2, THEN conjunct2, THEN mp, OF conjI, OF si r2]
    by blast
  show ?thesis
    by (intro conjI 1 2 3 4 5 6)
qed


end
